theory Spec2Isabelle
  imports Main "HOL-Library.Sublist" "HOL-Library.AList"
begin

section \<open>JavaScript values and the object store\<close>

text \<open>
  The agent of \<^verbatim>\<open>src/dist/index.esm.js\<close> keeps its state in mutable objects that are
  shared by reference: the entries of the event log, the arrays handed out by
  \<^verbatim>\<open>all\<close>, and the function objects that \<^verbatim>\<open>wrap\<close> marks and caches. The model therefore
  has an explicit store. An address is an index into the store; allocation appends.

  Values that are only read (thrown values, error objects) are modelled by value:
  \<open>Object cls props\<close> is an object whose \<^verbatim>\<open>Object.prototype.toString\<close> tag is
  \<open>[object cls]\<close> and whose visible properties are \<open>props\<close>. Numbers are the
  integers; \<open>Ref a\<close> is a reference to the store cell at address \<open>a\<close>.
\<close>

type_synonym addr = nat

datatype jsval =
    Undefined
  | Null
  | Boolean bool
  | Number int
  | String string
  | Object string "(string \<times> jsval) list"
  | Ref addr

text \<open>One entry of the log, the object literal \<^verbatim>\<open>{ key: d, category: a, value: b }\<close>
  of \<^verbatim>\<open>add\<close>. The entry itself is never mutated after it is pushed, so it is
  stored inline in the array; its \<^verbatim>\<open>value\<close> is a reference to an object of the store
  (every caller of \<^verbatim>\<open>add\<close> passes an object literal).\<close>

record entry =
  key :: string
  category :: string
  val :: addr

text \<open>A function object: its own enumerable properties, its \<^verbatim>\<open>prototype\<close> property,
  whether it is extensible (it is not after \<^verbatim>\<open>Object.preventExtensions\<close>, \<^verbatim>\<open>Object.seal\<close>
  or \<^verbatim>\<open>Object.freeze\<close>) and its code. The code is either host code, named by an index into a table of behaviours,
  or the closure \<^verbatim>\<open>b\<close> that \<^verbatim>\<open>wrap\<close> creates, which holds the original \<^verbatim>\<open>a\<close> and
  the bind metadata \<^verbatim>\<open>e\<close> (time) and \<^verbatim>\<open>f\<close> (stack).\<close>

datatype code = Native nat | Wrapper addr jsval jsval

record funobj =
  props :: "(string \<times> jsval) list"
  proto :: jsval
  extensible :: bool
  body :: code

datatype cell =
    Obj "(string \<times> jsval) list"
  | Entries "entry list"
  | Values "addr list"
  | Fun funobj

type_synonym heap = "cell list"

datatype js_error = TypeError

definition cell_at :: "heap \<Rightarrow> addr \<Rightarrow> cell option" where
  "cell_at h a = (if a < length h then Some (h ! a) else None)"

definition alloc :: "heap \<Rightarrow> cell \<Rightarrow> heap \<times> addr" where
  "alloc h c = (h @ [c], length h)"

definition store :: "heap \<Rightarrow> addr \<Rightarrow> cell \<Rightarrow> heap" where
  "store h a c = (if a < length h then h[a := c] else h)"

section \<open>The bounded event log\<close>

text \<open>
  \<^verbatim>\<open>var x = function (a) { this.util = a; this.appender = []; this.maxLength = 30; }\<close>

  The log object holds a reference to its array and the capacity.
\<close>

record Log =
  appender :: addr
  maxLength :: nat

definition log_new :: "heap \<Rightarrow> heap \<times> Log" where
  "log_new h = (let (h1, a) = alloc h (Entries []) in (h1, \<lparr>appender = a, maxLength = 30\<rparr>))"

text \<open>The array behind \<^verbatim>\<open>this.appender\<close>; reading a property of something that is not
  there is a \<^verbatim>\<open>TypeError\<close> in JavaScript.\<close>

definition log_entries :: "heap \<Rightarrow> Log \<Rightarrow> js_error + entry list" where
  "log_entries h l =
     (case cell_at h (appender l) of Some (Entries xs) \<Rightarrow> Inr xs | _ \<Rightarrow> Inl TypeError)"

text \<open>
  \<^verbatim>\<open>for (e = 0; e < this.appender.length; e++)
    (d = this.appender[e]) && d.category === a && b.push(d.value);\<close>

  The loop of \<^verbatim>\<open>all\<close>, with the array \<^verbatim>\<open>b\<close> being built as accumulator. Every element
  of the array is an entry object, so \<^verbatim>\<open>d\<close> is truthy.
\<close>

fun all_loop :: "entry list \<Rightarrow> string \<Rightarrow> addr list \<Rightarrow> addr list" where
  "all_loop [] a b = b"
| "all_loop (d # ds) a b = all_loop ds a (if category d = a then b @ [val d] else b)"

text \<open>\<^verbatim>\<open>all\<close> allocates the new array \<^verbatim>\<open>b\<close>, fills it and returns the reference to it.\<close>

definition log_all :: "heap \<Rightarrow> Log \<Rightarrow> string \<Rightarrow> js_error + (heap \<times> addr)" where
  "log_all h l a =
     (case log_entries h l of
        Inl e \<Rightarrow> Inl e
      | Inr xs \<Rightarrow>
          (let (h1, b) = alloc h (Values []) in Inr (store h1 b (Values (all_loop xs a [])), b)))"

text \<open>\<^verbatim>\<open>clear: function () { this.appender.length = 0; }\<close> empties the array in place.\<close>

definition log_clear :: "heap \<Rightarrow> Log \<Rightarrow> js_error + heap" where
  "log_clear h l =
     (case log_entries h l of
        Inl e \<Rightarrow> Inl e
      | Inr xs \<Rightarrow> Inr (store h (appender l) (Entries [])))"

text \<open>
  \<^verbatim>\<open>this.appender.length > this.maxLength &&
    (this.appender = this.appender.slice(Math.max(this.appender.length - this.maxLength, 0)));\<close>

  \<^verbatim>\<open>slice\<close> allocates a new array; the log then points to it. The subtraction is on
  integers and \<^verbatim>\<open>Math.max\<close> cuts it at zero.
\<close>

definition log_truncate :: "heap \<Rightarrow> Log \<Rightarrow> js_error + (heap \<times> Log)" where
  "log_truncate h l =
     (case log_entries h l of
        Inl e \<Rightarrow> Inl e
      | Inr xs \<Rightarrow>
          (if length xs > maxLength l
           then (let start = nat (max (int (length xs) - int (maxLength l)) 0);
                     (h1, a) = alloc h (Entries (drop start xs))
                 in Inr (h1, l\<lparr>appender := a\<rparr>))
           else Inr (h, l)))"

text \<open>
  \<^verbatim>\<open>add: function (a, b) { var d = this.util.uuid();
    this.appender.push({ key: d, category: a, value: b }); this.truncate(); return d; }\<close>

  The key comes from \<^verbatim>\<open>Math.random\<close>; it is an input of the model.
\<close>

definition log_add :: "heap \<Rightarrow> Log \<Rightarrow> string \<Rightarrow> string \<Rightarrow> addr \<Rightarrow> js_error + (heap \<times> Log \<times> string)" where
  "log_add h l d a b =
     (case log_entries h l of
        Inl e \<Rightarrow> Inl e
      | Inr xs \<Rightarrow>
          (case log_truncate (store h (appender l) (Entries (xs @ [\<lparr>key = d, category = a, val = b\<rparr>]))) l of
             Inl e \<Rightarrow> Inl e
           | Inr (h1, l1) \<Rightarrow> Inr (h1, l1, d)))"

text \<open>
  \<^verbatim>\<open>for (e = 0; e < this.appender.length; e++)
    if (((d = this.appender[e]), d.category === a && d.key === b)) return d.value;
  return !1;\<close>

  \<open>None\<close> is the \<^verbatim>\<open>false\<close> of a failed lookup.
\<close>

fun get_loop :: "entry list \<Rightarrow> string \<Rightarrow> string \<Rightarrow> addr option" where
  "get_loop [] a b = None"
| "get_loop (d # ds) a b = (if category d = a \<and> key d = b then Some (val d) else get_loop ds a b)"

definition log_get :: "heap \<Rightarrow> Log \<Rightarrow> string \<Rightarrow> string \<Rightarrow> js_error + addr option" where
  "log_get h l a b =
     (case log_entries h l of Inl e \<Rightarrow> Inl e | Inr xs \<Rightarrow> Inr (get_loop xs a b))"

text \<open>A sequence of \<^verbatim>\<open>add\<close> calls, each with its key, category and value; the first
  failure stops the sequence, as an exception would.\<close>

fun log_adds :: "heap \<Rightarrow> Log \<Rightarrow> (string \<times> string \<times> addr) list \<Rightarrow> js_error + (heap \<times> Log)" where
  "log_adds h l [] = Inr (h, l)"
| "log_adds h l ((d, a, b) # rest) =
     (case log_add h l d a b of Inl e \<Rightarrow> Inl e | Inr (h1, l1, _) \<Rightarrow> log_adds h1 l1 rest)"

definition mk_entry :: "string \<times> string \<times> addr \<Rightarrow> entry" where
  "mk_entry t = (case t of (d, a, b) \<Rightarrow> \<lparr>key = d, category = a, val = b\<rparr>)"

text \<open>The log is well formed in a store when its array is there.\<close>

definition log_wf :: "heap \<Rightarrow> Log \<Rightarrow> bool" where
  "log_wf h l = (case cell_at h (appender l) of Some (Entries xs) \<Rightarrow> True | _ \<Rightarrow> False)"

subsection \<open>Completing a network entry in place\<close>

text \<open>
  Assignment to a property of an object of the store, \<^verbatim>\<open>b.k = v\<close>: an existing property
  keeps its place, a new one is added at the end. Plain objects and function objects
  take properties; the arrays of the model carry their elements only.
\<close>

definition set_prop :: "heap \<Rightarrow> addr \<Rightarrow> string \<Rightarrow> jsval \<Rightarrow> heap" where
  "set_prop h b k v =
     (case cell_at h b of
        Some (Obj ps) \<Rightarrow> store h b (Obj (AList.update k v ps))
      | Some (Fun f) \<Rightarrow> store h b (Fun (f\<lparr>props := AList.update k v (props f)\<rparr>))
      | _ \<Rightarrow> h)"

text \<open>What \<^verbatim>\<open>finalizeNetworkEvent\<close> reads of the request object: the log key kept in
  \<^verbatim>\<open>a._trackJs.logId\<close> (\<open>None\<close> when the request carries no \<^verbatim>\<open>_trackJs\<close>), the
  status and the status text.\<close>

record xhr =
  trackJs :: "string option"
  status :: int
  statusText :: string

text \<open>
  \<^verbatim>\<open>finalizeNetworkEvent: function (a) {
    if (a._trackJs) {
      var b = this.log.get('n', a._trackJs.logId);
      b && ((b.completedOn = this.util.isoNow()), ...,
            (b.statusCode = 1223 == a.status ? 204 : a.status),
            (b.statusText = 1223 == a.status ? 'No Content' : a.statusText)); } }\<close>

  The entry found by \<^verbatim>\<open>get\<close> is completed in place. (The step between, which copies a
  correlation header, tests the lower-cased header text for a needle with a capital
  letter and so never assigns.) The time stamp \<open>now\<close> is the result of \<^verbatim>\<open>isoNow()\<close>.
\<close>

definition finalizeNetworkEvent :: "string \<Rightarrow> heap \<Rightarrow> Log \<Rightarrow> xhr \<Rightarrow> js_error + heap" where
  "finalizeNetworkEvent now h l a =
     (case trackJs a of
        None \<Rightarrow> Inr h
      | Some logId \<Rightarrow>
          (case log_get h l ''n'' logId of
             Inl e \<Rightarrow> Inl e
           | Inr None \<Rightarrow> Inr h
           | Inr (Some b) \<Rightarrow>
               Inr (set_prop
                     (set_prop
                       (set_prop h b ''completedOn'' (String now))
                       b ''statusCode'' (Number (if status a = 1223 then 204 else status a)))
                     b ''statusText'' (String (if status a = 1223 then ''No Content'' else statusText a)))))"

subsection \<open>Sequences of operations on the log\<close>

text \<open>
  The operations the watchers and the report assembly perform on the log. \<open>Add d a ps\<close> is
  a watcher's \<^verbatim>\<open>this.log.add(a, { ... })\<close>: the object literal with properties \<open>ps\<close>
  is allocated, then added under the key \<open>d\<close>.
\<close>

datatype log_op =
    Add string string "(string \<times> jsval) list"
  | Clear
  | All string
  | Get string string
  | Finalize string xhr

fun log_step :: "heap \<Rightarrow> Log \<Rightarrow> log_op \<Rightarrow> js_error + (heap \<times> Log)" where
  "log_step h l (Add d a ps) =
     (let (h1, v) = alloc h (Obj ps)
      in case log_add h1 l d a v of Inl e \<Rightarrow> Inl e | Inr (h2, l2, _) \<Rightarrow> Inr (h2, l2))"
| "log_step h l Clear =
     (case log_clear h l of Inl e \<Rightarrow> Inl e | Inr h1 \<Rightarrow> Inr (h1, l))"
| "log_step h l (All c) =
     (case log_all h l c of Inl e \<Rightarrow> Inl e | Inr (h1, _) \<Rightarrow> Inr (h1, l))"
| "log_step h l (Get a b) =
     (case log_get h l a b of Inl e \<Rightarrow> Inl e | Inr _ \<Rightarrow> Inr (h, l))"
| "log_step h l (Finalize now x) =
     (case finalizeNetworkEvent now h l x of Inl e \<Rightarrow> Inl e | Inr h1 \<Rightarrow> Inr (h1, l))"

fun log_run :: "heap \<Rightarrow> Log \<Rightarrow> log_op list \<Rightarrow> js_error + (heap \<times> Log)" where
  "log_run h l [] = Inr (h, l)"
| "log_run h l (x # xs) =
     (case log_step h l x of Inl e \<Rightarrow> Inl e | Inr (h1, l1) \<Rightarrow> log_run h1 l1 xs)"

fun is_Finalize :: "log_op \<Rightarrow> bool" where
  "is_Finalize (Finalize _ _) = True"
| "is_Finalize _ = False"

text \<open>What a holder of the array at \<open>s\<close> sees: the references in it, and the object
  behind each.\<close>

definition snapshot_view :: "heap \<Rightarrow> addr \<Rightarrow> (addr \<times> cell option) list option" where
  "snapshot_view h s =
     (case cell_at h s of
        Some (Values vs) \<Rightarrow> Some (map (\<lambda>v. (v, cell_at h v)) vs)
      | _ \<Rightarrow> None)"

text \<open>The values of the log's entries are objects of the store, as the object literals
  passed to \<^verbatim>\<open>add\<close> are.\<close>

definition values_are_objects :: "heap \<Rightarrow> Log \<Rightarrow> bool" where
  "values_are_objects h l =
     (case log_entries h l of
        Inr xs \<Rightarrow> list_all (\<lambda>d. case cell_at h (val d) of Some (Obj ps) \<Rightarrow> True | _ \<Rightarrow> False) xs
      | Inl e \<Rightarrow> False)"

text \<open>Two frame conditions for a step of the log from \<open>(h, l)\<close> to \<open>(h1, l1)\<close>:
  the store only grows, the log keeps an array that is its old one or a new one, and the
  arrays returned by \<^verbatim>\<open>all\<close> are left alone; every cell but the log's own array is
  left alone.\<close>

definition frame :: "heap \<Rightarrow> Log \<Rightarrow> heap \<Rightarrow> Log \<Rightarrow> bool" where
  "frame h l h1 l1 \<longleftrightarrow>
     length h \<le> length h1
     \<and> (\<exists>ys. log_entries h1 l1 = Inr ys)
     \<and> (appender l1 = appender l \<or> length h \<le> appender l1)
     \<and> (\<forall>p vs. cell_at h p = Some (Values vs) \<longrightarrow> cell_at h1 p = Some (Values vs))"

definition frame_all :: "heap \<Rightarrow> Log \<Rightarrow> heap \<Rightarrow> bool" where
  "frame_all h l h1 \<longleftrightarrow> (\<forall>p < length h. p \<noteq> appender l \<longrightarrow> cell_at h1 p = cell_at h p)"

section \<open>The transmitter\<close>

text \<open>
  What the host supplies to one call of the agent: the clock (\<^verbatim>\<open>new Date().getTime()\<close>
  and \<^verbatim>\<open>isoNow()\<close>), the kind of host (\<^verbatim>\<open>c.isBrowser\<close>, \<^verbatim>\<open>c.isWorker\<close>), whether a
  new \<^verbatim>\<open>XMLHttpRequest\<close> has \<^verbatim>\<open>withCredentials\<close>, whether \<^verbatim>\<open>XDomainRequest\<close> exists,
  the result of \<^verbatim>\<open>c.isBrowserSupported()\<close>, the exception the host raises while a request
  is serialised and issued (if it raises one), whether it is the native \<^verbatim>\<open>send\<close> of the
  request that raises it, whether \<^verbatim>\<open>send\<close> of a request is the function that the network
  watcher of the agent puts in its place (it is when the agent is installed with
  \<^verbatim>\<open>network.enabled\<close>, the default), the stack of an \<^verbatim>\<open>Error()\<close> created now, and the
  conversion of an object to a string, which runs the object's own \<^verbatim>\<open>toString\<close>.
\<close>

record env =
  now :: int
  isoNow :: string
  isBrowser :: bool
  isWorker :: bool
  xhrWithCredentials :: bool
  hasXDomainRequest :: bool
  browserSupported :: bool
  hostThrows :: "jsval option"
  raisedBySend :: bool
  sendWatched :: bool
  errorStack :: jsval
  objectToString :: "jsval \<Rightarrow> string"

text \<open>A payload that \<^verbatim>\<open>throttle\<close> can annotate: \<^verbatim>\<open>a.throttled\<close> is absent (\<open>None\<close>) until
  it is assigned. The error report and the fault report both extend this record.\<close>

record throttleable =
  throttled :: "nat option"

record fault = throttleable +
  fault_token :: jsval
  fault_file :: jsval
  fault_msg :: jsval
  fault_stack :: string

text \<open>\<^verbatim>\<open>this.throttleStats = { attemptCount: 0, throttledCount: 0, lastAttempt: new Date().getTime() }\<close>\<close>

record throttle_stats =
  attemptCount :: nat
  throttledCount :: nat
  lastAttempt :: int

text \<open>
  The transmitter \<^verbatim>\<open>t\<close>. Besides its two fields, the model keeps what it has handed to the
  host: \<open>sent\<close> lists the error reports issued, each as the serialised payload with the
  token of the endpoint, and \<open>beacons\<close> the fault reports issued.
\<close>

record 'w Transmitter =
  disabled :: bool
  throttleStats :: throttle_stats
  sent :: "('w \<times> jsval) list"
  beacons :: "fault list"

text \<open>
  \<^verbatim>\<open>var t = function (a, b) { ...; this.disabled = !1;
    this.throttleStats = { attemptCount: 0, throttledCount: 0, lastAttempt: new Date().getTime() };
    (g.JSON && g.JSON.stringify) || (this.disabled = !0); }\<close>
\<close>

definition transmitter_new :: "int \<Rightarrow> bool \<Rightarrow> 'w Transmitter" where
  "transmitter_new time hasStringify =
     \<lparr>disabled = (if hasStringify then False else True),
      throttleStats = \<lparr>attemptCount = 0, throttledCount = 0, lastAttempt = time\<rparr>,
      sent = [], beacons = []\<rparr>"

text \<open>
  \<^verbatim>\<open>throttle: function (a) {
    var b = new Date().getTime();
    this.throttleStats.attemptCount++;
    if (this.throttleStats.lastAttempt + 1e3 >= b) {
      if (((this.throttleStats.lastAttempt = b), 10 < this.throttleStats.attemptCount))
        return this.throttleStats.throttledCount++, !0;
    } else (a.throttled = this.throttleStats.throttledCount), (this.throttleStats.attemptCount = 0),
           (this.throttleStats.lastAttempt = b), (this.throttleStats.throttledCount = 0);
    return !1; }\<close>

  The result is the returned boolean, the payload and the transmitter.
\<close>

definition throttle ::
  "int \<Rightarrow> 'w Transmitter \<Rightarrow> 'a throttleable_scheme
     \<Rightarrow> bool \<times> 'a throttleable_scheme \<times> 'w Transmitter" where
  "throttle b t a =
     (let s1 = (throttleStats t)\<lparr>attemptCount := attemptCount (throttleStats t) + 1\<rparr>
      in if lastAttempt s1 + 1000 \<ge> b
         then (let s2 = s1\<lparr>lastAttempt := b\<rparr>
               in if 10 < attemptCount s2
                  then (True, a, t\<lparr>throttleStats := s2\<lparr>throttledCount := throttledCount s2 + 1\<rparr>\<rparr>)
                  else (False, a, t\<lparr>throttleStats := s2\<rparr>))
         else (False, a\<lparr>throttled := Some (throttledCount s1)\<rparr>,
               t\<lparr>throttleStats := s1\<lparr>attemptCount := 0, lastAttempt := b, throttledCount := 0\<rparr>\<rparr>))"

text \<open>
  \<^verbatim>\<open>getCORSRequest\<close>: an \<^verbatim>\<open>XMLHttpRequest\<close> when \<^verbatim>\<open>testCrossdomainXhr()\<close> holds, else an
  \<^verbatim>\<open>XDomainRequest\<close> when the host has one, else \<^verbatim>\<open>null\<close>.
\<close>

datatype request = XMLHttpRequest | XDomainRequest

definition testCrossdomainXhr :: "env \<Rightarrow> bool" where
  "testCrossdomainXhr ev = (isBrowser ev \<and> xhrWithCredentials ev)"

definition getCORSRequest :: "env \<Rightarrow> request option" where
  "getCORSRequest ev =
     (if testCrossdomainXhr ev then Some XMLHttpRequest
      else if hasXDomainRequest ev then Some XDomainRequest
      else None)"

text \<open>The \<^verbatim>\<open>TypeError\<close> of an assignment to a property of \<^verbatim>\<open>null\<close>.\<close>

definition null_TypeError :: jsval where
  "null_TypeError =
     Object ''Error'' [(''name'', String ''TypeError''),
                       (''message'', String ''Cannot set properties of null'')]"

text \<open>
  \<^verbatim>\<open>sendError: function (a, b) {
    var d = this;
    if (!this.disabled && !this.throttle(a))
      try {
        if (c.isBrowser) {
          var e = this.getCORSRequest('POST', this.errorEndpoint(b));
          e.onreadystatechange = function () { ... };
          e._trackJs = n;
          e.send(g.JSON.stringify(a));
        } else if (c.isWorker) {
          var f = { method: 'POST', mode: 'cors', body: g.JSON.stringify(a), __trackjs__: 1 };
          fetch(this.errorEndpoint(b), f).then(...)['catch'](...);
        }
      } catch (h) { throw ((this.disabled = !0), h); } }\<close>

  An exception of the \<^verbatim>\<open>try\<close> block reaches the \<^verbatim>\<open>catch\<close> clause, which disables the
  channel and rethrows, unless something on the way catches it first. The native
  \<^verbatim>\<open>send\<close> is called through the network watcher when the agent has one:

  \<^verbatim>\<open>a.prototype.send = function () {
    if (!this._trackJs)
      try { return e.apply(this, arguments); }
      catch (a) { b.onError('ajax', a); return; }
    ... };\<close>

  \<^verbatim>\<open>e._trackJs = n\<close> clears the mark of the request (\<^verbatim>\<open>n\<close> is \<^verbatim>\<open>undefined\<close>), so what the
  native \<^verbatim>\<open>send\<close> raises is caught there and handed to \<^verbatim>\<open>onError('ajax', a)\<close>; when that
  call returns, \<^verbatim>\<open>send\<close> and \<^verbatim>\<open>sendError\<close> return, and when it raises, its exception
  is the one that reaches the \<^verbatim>\<open>catch\<close> clause. \<^verbatim>\<open>fetch\<close> is called with
  \<^verbatim>\<open>__trackjs__\<close>, which the watcher of \<^verbatim>\<open>fetch\<close> passes on to the native function.

  \<open>stringify\<close> is the host's \<^verbatim>\<open>JSON.stringify\<close>. The result is the transmitter, the
  payload (which \<^verbatim>\<open>throttle\<close> may have annotated) and how the call ends: it returns, it
  raises an exception, or the watcher's \<^verbatim>\<open>send\<close> has caught an exception of the native
  \<^verbatim>\<open>send\<close> and calls \<^verbatim>\<open>onError\<close> with it. The model of \<^verbatim>\<open>sendError\<close> stops at that call,
  which \<open>onError_call\<close> below makes.
\<close>

datatype sending = Done | Raised jsval | Caught jsval

definition sendError ::
  "('a throttleable_scheme \<Rightarrow> 'w) \<Rightarrow> env \<Rightarrow> 'w Transmitter \<Rightarrow> 'a throttleable_scheme \<Rightarrow> jsval
     \<Rightarrow> 'w Transmitter \<times> 'a throttleable_scheme \<times> sending" where
  "sendError stringify ev t a b =
     (if disabled t then (t, a, Done)
      else (case throttle (now ev) t a of
              (True, a1, t1) \<Rightarrow> (t1, a1, Done)
            | (False, a1, t1) \<Rightarrow>
                (if isBrowser ev then
                   (case getCORSRequest ev of
                      None \<Rightarrow> (t1\<lparr>disabled := True\<rparr>, a1, Raised null_TypeError)
                    | Some e \<Rightarrow>
                        (case hostThrows ev of
                           Some h \<Rightarrow>
                             (if raisedBySend ev \<and> sendWatched ev then (t1, a1, Caught h)
                              else (t1\<lparr>disabled := True\<rparr>, a1, Raised h))
                         | None \<Rightarrow> (t1\<lparr>sent := sent t1 @ [(stringify a1, b)]\<rparr>, a1, Done)))
                 else if isWorker ev then
                   (case hostThrows ev of
                      Some h \<Rightarrow> (t1\<lparr>disabled := True\<rparr>, a1, Raised h)
                    | None \<Rightarrow> (t1\<lparr>sent := sent t1 @ [(stringify a1, b)]\<rparr>, a1, Done))
                 else (t1, a1, Done))))"




text \<open>
  \<^verbatim>\<open>sendTrackerFault: function (a) { this.throttle(a) || (... beacon ...); }\<close>

  The fault channel shares the throttle with the error channel and does not look at
  \<^verbatim>\<open>disabled\<close>.
\<close>

definition sendTrackerFault :: "env \<Rightarrow> 'w Transmitter \<Rightarrow> fault \<Rightarrow> 'w Transmitter" where
  "sendTrackerFault ev t a =
     (case throttle (now ev) t a of
        (True, a1, t1) \<Rightarrow> t1
      | (False, a1, t1) \<Rightarrow> t1\<lparr>beacons := beacons t1 @ [a1]\<rparr>)"

text \<open>A run of admission attempts, each at its time and with its payload; the results
  are the returned booleans with the payloads as \<^verbatim>\<open>throttle\<close> left them.\<close>

fun throttle_run ::
  "(int \<times> 'a throttleable_scheme) list \<Rightarrow> 'w Transmitter
     \<Rightarrow> (bool \<times> 'a throttleable_scheme) list \<times> 'w Transmitter" where
  "throttle_run [] t = ([], t)"
| "throttle_run ((b, a) # rest) t =
     (case throttle b t a of
        (r, a1, t1) \<Rightarrow> (case throttle_run rest t1 of (rs, t2) \<Rightarrow> ((r, a1) # rs, t2)))"

text \<open>The attempts at times \<open>ts\<close> stay in the rolling window that was last touched at
  \<open>prev\<close>: each comes at most 1000 ms after the one before.\<close>

fun rolling :: "int \<Rightarrow> int list \<Rightarrow> bool" where
  "rolling prev [] = True"
| "rolling prev (b # bs) = (prev + 1000 \<ge> b \<and> rolling b bs)"




section \<open>Strings, truthiness and property access\<close>

text \<open>A value is truthy unless it is \<^verbatim>\<open>undefined\<close>, \<^verbatim>\<open>null\<close>, \<^verbatim>\<open>false\<close>, \<^verbatim>\<open>0\<close> or
  the empty string. \<open>or_else a b\<close> is \<^verbatim>\<open>a || b\<close>.\<close>

fun truthy :: "jsval \<Rightarrow> bool" where
  "truthy Undefined = False"
| "truthy Null = False"
| "truthy (Boolean b) = b"
| "truthy (Number n) = (n \<noteq> 0)"
| "truthy (String s) = (s \<noteq> [])"
| "truthy (Object c ps) = True"
| "truthy (Ref a) = True"

definition or_else :: "jsval \<Rightarrow> jsval \<Rightarrow> jsval" where
  "or_else a b = (if truthy a then a else b)"

text \<open>Decimal digits of a natural number, as \<^verbatim>\<open>'' + n\<close> prints them.\<close>

definition digit :: "nat \<Rightarrow> char" where
  "digit n = ''0123456789'' ! n"

function dec :: "nat \<Rightarrow> string" where
  "dec n = (if n < 10 then [digit n] else dec (n div 10) @ [digit (n mod 10)])"
  by pat_completeness auto
termination
  by (relation "measure (\<lambda>n. n)") auto

declare dec.simps [simp del]

text \<open>Conversion to a string, as in \<^verbatim>\<open>'' + a\<close>. Primitives are printed; for an object
  the host runs the object's \<^verbatim>\<open>toString\<close>.\<close>

definition to_string :: "env \<Rightarrow> jsval \<Rightarrow> string" where
  "to_string ev v =
     (case v of
        Undefined \<Rightarrow> ''undefined''
      | Null \<Rightarrow> ''null''
      | Boolean b \<Rightarrow> (if b then ''true'' else ''false'')
      | Number n \<Rightarrow> (if n < 0 then ''-'' @ dec (nat (- n)) else dec (nat n))
      | String s \<Rightarrow> s
      | _ \<Rightarrow> objectToString ev v)"

text \<open>\<^verbatim>\<open>Object.prototype.toString.call(a)\<close>. A function object has the tag
  \<^verbatim>\<open>Function\<close>, an array \<^verbatim>\<open>Array\<close>, a plain object of the store \<^verbatim>\<open>Object\<close>.\<close>

definition class_of :: "heap \<Rightarrow> jsval \<Rightarrow> string" where
  "class_of h v =
     (case v of
        Undefined \<Rightarrow> ''Undefined''
      | Null \<Rightarrow> ''Null''
      | Boolean b \<Rightarrow> ''Boolean''
      | Number n \<Rightarrow> ''Number''
      | String s \<Rightarrow> ''String''
      | Object c ps \<Rightarrow> c
      | Ref a \<Rightarrow>
          (case cell_at h a of
             Some (Fun f) \<Rightarrow> ''Function''
           | Some (Obj ps) \<Rightarrow> ''Object''
           | _ \<Rightarrow> ''Array''))"

definition objectTag :: "heap \<Rightarrow> jsval \<Rightarrow> string" where
  "objectTag h v = ''[object '' @ class_of h v @ '']''"

text \<open>
  \<^verbatim>\<open>s.indexOf(pat)\<close> on strings: the first position at which \<open>pat\<close> occurs in \<open>s\<close>, or
  \<open>-1\<close>. \<^verbatim>\<open>s.substr(0, n)\<close> is \<open>take n s\<close>.
\<close>

fun index_from :: "nat \<Rightarrow> string \<Rightarrow> string \<Rightarrow> int" where
  "index_from i [] pat = (if pat = [] then int i else - 1)"
| "index_from i (c # cs) pat = (if prefix pat (c # cs) then int i else index_from (Suc i) cs pat)"

definition indexOf :: "string \<Rightarrow> string \<Rightarrow> int" where
  "indexOf s pat = index_from 0 s pat"

text \<open>
  \<^verbatim>\<open>truncate: function (a, b) {
    a = '' + a;
    if (a.length <= b) return a;
    var c = a.length - b;
    return a.substr(0, b) + '...{' + c + '}'; }\<close>
\<close>

definition util_truncate :: "env \<Rightarrow> jsval \<Rightarrow> nat \<Rightarrow> string" where
  "util_truncate ev a b =
     (let a1 = to_string ev a
      in if length a1 \<le> b then a1
         else take b a1 @ ''...{'' @ dec (length a1 - b) @ ''}'')"

text \<open>
  Reading a property \<^verbatim>\<open>v.k\<close>. An object given by value has the properties listed; a
  reference is read in the store; a primitive has none of the properties the agent asks
  for (\<^verbatim>\<open>message\<close>, \<^verbatim>\<open>stack\<close>, \<^verbatim>\<open>innerError\<close>, ...). Reading a property of \<^verbatim>\<open>undefined\<close>
  or \<^verbatim>\<open>null\<close> raises; the callers below test for that case before they read.
\<close>

definition lookup :: "(string \<times> jsval) list \<Rightarrow> string \<Rightarrow> jsval" where
  "lookup ps k = (case map_of ps k of Some v \<Rightarrow> v | None \<Rightarrow> Undefined)"

definition get_prop :: "heap \<Rightarrow> jsval \<Rightarrow> string \<Rightarrow> jsval" where
  "get_prop h v k =
     (case v of
        Object c ps \<Rightarrow> lookup ps k
      | Ref a \<Rightarrow>
          (case cell_at h a of
             Some (Obj ps) \<Rightarrow> lookup ps k
           | Some (Fun f) \<Rightarrow> lookup (props f) k
           | _ \<Rightarrow> Undefined)
      | _ \<Rightarrow> Undefined)"


definition isObject :: "heap \<Rightarrow> jsval \<Rightarrow> bool" where
  "isObject h v =
     (case v of
        Object c ps \<Rightarrow> True
      | Ref a \<Rightarrow> (case cell_at h a of Some (Fun f) \<Rightarrow> False | _ \<Rightarrow> True)
      | _ \<Rightarrow> False)"

definition isString :: "heap \<Rightarrow> jsval \<Rightarrow> bool" where
  "isString h v =
     (case v of
        String s \<Rightarrow> True
      | _ \<Rightarrow> class_of h v \<noteq> ''Array'' \<and> isObject h v \<and> objectTag h v = ''[object String]'')"

definition isError :: "heap \<Rightarrow> jsval \<Rightarrow> bool" where
  "isError h a =
     (if \<not> isObject h a then False
      else objectTag h a = ''[object Error]'' \<or> objectTag h a = ''[object DOMException]''
           \<or> (isString h (get_prop h a ''name'') \<and> isString h (get_prop h a ''message'')))"

text \<open>
  \<^verbatim>\<open>wrapError: function (a) {
    var b = a || Object.prototype.toString.call(a);
    if (b && b.innerError) return a;
    var c = Error('Track Caught: ' + (b.message || b));
    c.description = 'Track Caught: ' + b.description;
    c.file = b.file;
    c.line = b.line || b.lineNumber;
    c.column = b.column || b.columnNumber;
    c.stack = b.stack;
    c.innerError = a;
    return c; }\<close>

  The new error is an \<^verbatim>\<open>Error\<close> object; its \<^verbatim>\<open>name\<close> is the inherited \<^verbatim>\<open>'Error'\<close>.
\<close>

definition wrapError :: "env \<Rightarrow> heap \<Rightarrow> jsval \<Rightarrow> jsval" where
  "wrapError ev h a =
     (let b = or_else a (String (objectTag h a))
      in if truthy b \<and> truthy (get_prop h b ''innerError'') then a
         else Object ''Error''
                [(''name'', String ''Error''),
                 (''message'', String (''Track Caught: '' @ to_string ev (or_else (get_prop h b ''message'') b))),
                 (''description'', String (''Track Caught: '' @ to_string ev (get_prop h b ''description''))),
                 (''file'', get_prop h b ''file''),
                 (''line'', or_else (get_prop h b ''line'') (get_prop h b ''lineNumber'')),
                 (''column'', or_else (get_prop h b ''column'') (get_prop h b ''columnNumber'')),
                 (''stack'', get_prop h b ''stack''),
                 (''innerError'', a)])"

section \<open>The aggregation entry point\<close>

text \<open>The result of calling a function: it returns a value or throws one.\<close>

datatype outcome = Return jsval | Throw jsval

text \<open>The third argument of \<^verbatim>\<open>onError\<close>: \<^verbatim>\<open>{ bindStack, bindTime, force }\<close>. A property
  that the caller leaves out is \<^verbatim>\<open>undefined\<close>; a \<^verbatim>\<open>force\<close> left out is falsy.\<close>

record bind =
  bindStack :: jsval
  bindTime :: jsval
  force :: bool

text \<open>
  The report \<^verbatim>\<open>h\<close> that \<^verbatim>\<open>onError\<close> assembles. The telemetry properties hold the
  references to the arrays returned by \<^verbatim>\<open>all\<close>. The blocks supplied by the collaborators
  that the specification leaves outside (\<^verbatim>\<open>customer\<close>, \<^verbatim>\<open>environment\<close>, \<^verbatim>\<open>metadata\<close>,
  \<^verbatim>\<open>url\<close>, \<^verbatim>\<open>version\<close>) are one opaque value, \<open>collaborators\<close>.
\<close>

record payload = throttleable +
  agentPlatform :: string
  payload_bindStack :: jsval
  payload_bindTime :: jsval
  column :: jsval
  console :: addr
  entry_kind :: string
  payload_file :: jsval
  line :: jsval
  message :: string
  nav :: addr
  network :: addr
  stack :: jsval
  timestamp :: string
  visitor :: addr
  collaborators :: jsval

text \<open>What \<^verbatim>\<open>JSON.stringify\<close> makes of a report: the report with the contents of its
  telemetry arrays as they are in the store at that moment.\<close>

definition array_view :: "heap \<Rightarrow> addr \<Rightarrow> (string \<times> jsval) list list" where
  "array_view h a =
     (case cell_at h a of
        Some (Values vs) \<Rightarrow> map (\<lambda>v. case cell_at h v of Some (Obj ps) \<Rightarrow> ps | _ \<Rightarrow> []) vs
      | _ \<Rightarrow> [])"

record wire =
  wire_payload :: payload
  wire_console :: "(string \<times> jsval) list list"
  wire_nav :: "(string \<times> jsval) list list"
  wire_network :: "(string \<times> jsval) list list"
  wire_visitor :: "(string \<times> jsval) list list"

definition stringify :: "heap \<Rightarrow> payload \<Rightarrow> wire" where
  "stringify h p =
     \<lparr>wire_payload = p,
      wire_console = array_view h (console p),
      wire_nav = array_view h (nav p),
      wire_network = array_view h (network p),
      wire_visitor = array_view h (visitor p)\<rparr>"

text \<open>
  The part of the configuration that \<^verbatim>\<open>onError\<close> and \<^verbatim>\<open>wrap\<close> read: \<^verbatim>\<open>dedupe\<close>, the
  user hook \<^verbatim>\<open>onError\<close> (it may change the report it is given, and it returns or
  throws), the serializer \<^verbatim>\<open>serialize\<close>, the default serializer
  \<^verbatim>\<open>q.prototype.defaults.serialize\<close>, and \<^verbatim>\<open>callback.bindStack\<close>. The serializers are
  collaborators that return strings.
\<close>

record config =
  dedupe :: bool
  config_onError :: "payload \<Rightarrow> jsval \<Rightarrow> payload \<times> outcome"
  config_serialize :: "jsval \<Rightarrow> string"
  defaults_serialize :: "jsval \<Rightarrow> string"
  callback_bindStack :: bool

text \<open>The callbacks that \<^verbatim>\<open>onError\<close> leaves with \<^verbatim>\<open>setTimeout\<close>: the reset of the guard
  flag, and the forced retry with the exception of the user hook.\<close>

datatype timer = ResetGuard | Retry jsval

text \<open>
  The agent \<^verbatim>\<open>C\<close>: its flags, the store, the log, the transmitter, the configuration,
  the customer token, and the two variables of the closure of \<^verbatim>\<open>onError\<close>: \<^verbatim>\<open>a\<close>, the
  last fingerprint (\<open>None\<close> while it is \<^verbatim>\<open>undefined\<close>), and \<^verbatim>\<open>b\<close>, the guard flag. The
  model also keeps the timers that are pending, the calls of the user hook made so
  far, each with the report and the error it was given, and the exceptions of the
  native \<^verbatim>\<open>send\<close> that the network watcher has caught while the agent sent a report.
\<close>

record engine =
  hasInstalled :: bool
  hasEnabled :: bool
  mem :: heap
  eventLog :: Log
  transmitter :: "wire Transmitter"
  current :: config
  customer_token :: jsval
  lastFingerprint :: "string option"
  reporting :: bool
  timers :: "timer list"
  hookCalls :: "(payload \<times> jsval) list"
  ajaxCaught :: "jsval list"

text \<open>
  \<^verbatim>\<open>serialize: function (a, b) {
    if (this.hasInstalled && this.config.current.serialize && !b)
      try { return this.config.current.serialize(a); } catch (c) { ... }
    return q.prototype.defaults.serialize(a); }\<close>
\<close>

definition track_serialize :: "engine \<Rightarrow> jsval \<Rightarrow> bool \<Rightarrow> string" where
  "track_serialize st a b =
     (if hasInstalled st \<and> \<not> b then config_serialize (current st) a
      else defaults_serialize (current st) a)"

text \<open>The \<^verbatim>\<open>TypeError\<close> objects that the engine of the host raises inside \<^verbatim>\<open>onError\<close>;
  they are \<^verbatim>\<open>Error\<close> objects with a stack.\<close>

definition host_TypeError :: "env \<Rightarrow> string \<Rightarrow> jsval" where
  "host_TypeError ev m =
     Object ''Error'' [(''name'', String ''TypeError''), (''message'', String m),
                       (''stack'', errorStack ev)]"

text \<open>
  \<^verbatim>\<open>onFault: function (a) {
    var b = this.transmitter || new t();
    a = a || {};
    a = { token: (this.customer || {}).token, file: a.file || a.fileName,
          msg: a.message || 'unknown', stack: (a.stack || 'unknown').substr(0, 1e3), ... };
    b.sendTrackerFault(a); }\<close>

  A stack that is truthy and not a string has no \<^verbatim>\<open>substr\<close>: the call raises, and
  the exception leaves \<^verbatim>\<open>onFault\<close>.
\<close>

definition onFault :: "env \<Rightarrow> engine \<Rightarrow> jsval \<Rightarrow> engine \<times> jsval option" where
  "onFault ev st a0 =
     (let a = or_else a0 (Object ''Object'' []);
          h = mem st
      in case or_else (get_prop h a ''stack'') (String ''unknown'') of
           String s \<Rightarrow>
             (st\<lparr>transmitter :=
                  sendTrackerFault ev (transmitter st)
                    \<lparr>throttled = None,
                     fault_token = customer_token st,
                     fault_file = or_else (get_prop h a ''file'') (get_prop h a ''fileName''),
                     fault_msg = or_else (get_prop h a ''message'') (String ''unknown''),
                     fault_stack = take 1000 s\<rparr>\<rparr>,
              None)
         | _ \<Rightarrow> (st, Some (host_TypeError ev ''substr is not a function'')))"

text \<open>
  The size cap on the console messages of a report:

  \<^verbatim>\<open>function a() {
    var b = 0;
    c.forEach(h.console, function (a) { b += (a.message || '').length; });
    return 8e4 <= b; }
  for (var b = 0; a() && b < h.console.length; )
    (h.console[b].message = c.truncate(h.console[b].message, 1e3)), b++;\<close>

  The length of \<^verbatim>\<open>a.message || ''\<close> is a number for a string and for a falsy value;
  for any other value it is \<^verbatim>\<open>undefined\<close>, the sum becomes \<^verbatim>\<open>NaN\<close> (\<open>None\<close>) and the
  comparison is false.
\<close>

definition message_length :: "jsval \<Rightarrow> nat option" where
  "message_length m =
     (case or_else m (String []) of String s \<Rightarrow> Some (length s) | _ \<Rightarrow> None)"

fun console_total :: "heap \<Rightarrow> addr list \<Rightarrow> nat option \<Rightarrow> nat option" where
  "console_total h [] b = b"
| "console_total h (a # as) b =
     console_total h as
       (case (b, message_length (get_prop h (Ref a) ''message'')) of
          (Some n, Some k) \<Rightarrow> Some (n + k)
        | _ \<Rightarrow> None)"

definition over_budget :: "heap \<Rightarrow> addr list \<Rightarrow> bool" where
  "over_budget h vs = (case console_total h vs (Some 0) of Some n \<Rightarrow> 80000 \<le> n | None \<Rightarrow> False)"

definition truncate_message :: "env \<Rightarrow> heap \<Rightarrow> addr \<Rightarrow> heap" where
  "truncate_message ev h a =
     set_prop h a ''message'' (String (util_truncate ev (get_prop h (Ref a) ''message'') 1000))"

function cap_loop :: "env \<Rightarrow> heap \<Rightarrow> addr list \<Rightarrow> nat \<Rightarrow> heap" where
  "cap_loop ev h vs b =
     (if over_budget h vs \<and> b < length vs
      then cap_loop ev (truncate_message ev h (vs ! b)) vs (Suc b)
      else h)"
  by pat_completeness auto
termination
  by (relation "measure (\<lambda>(ev, h, vs, b). length vs - b)") auto

declare cap_loop.simps [simp del]

definition cap_console :: "env \<Rightarrow> heap \<Rightarrow> addr \<Rightarrow> heap" where
  "cap_console ev h c =
     (case cell_at h c of Some (Values vs) \<Rightarrow> cap_loop ev h vs 0 | _ \<Rightarrow> h)"

text \<open>
  The last part of \<^verbatim>\<open>onError\<close>, after the gates: the size cap, \<^verbatim>\<open>this.log.clear()\<close>, the
  timer that resets the guard flag, the guard flag, and
  \<^verbatim>\<open>this.transmitter.sendError(h, this.customer.token)\<close>. The result is the agent and
  the exception thrown inside the \<^verbatim>\<open>try\<close> block, if any. When the watcher's \<^verbatim>\<open>send\<close>
  has caught an exception, the activation is left at the call of \<^verbatim>\<open>onError('ajax', a)\<close>
  that the watcher makes, and the exception is added to \<open>ajaxCaught\<close>.
\<close>

definition send_phase :: "env \<Rightarrow> engine \<Rightarrow> payload \<Rightarrow> engine \<times> jsval option" where
  "send_phase ev st hp =
     (let h1 = cap_console ev (mem st) (console hp)
      in case log_clear h1 (eventLog st) of
           Inl e \<Rightarrow> (st\<lparr>mem := h1\<rparr>, Some (host_TypeError ev ''Cannot set properties of undefined''))
         | Inr h2 \<Rightarrow>
             (let st1 = st\<lparr>mem := h2, timers := timers st @ [ResetGuard], reporting := True\<rparr>
              in case sendError (stringify h2) ev (transmitter st1) hp (customer_token st1) of
                   (t1, hp1, Done) \<Rightarrow> (st1\<lparr>transmitter := t1\<rparr>, None)
                 | (t1, hp1, Raised x) \<Rightarrow> (st1\<lparr>transmitter := t1\<rparr>, Some x)
                 | (t1, hp1, Caught x) \<Rightarrow>
                     (st1\<lparr>transmitter := t1, ajaxCaught := ajaxCaught st1 @ [x]\<rparr>, None)))"

text \<open>
  \<^verbatim>\<open>if (this.config.current.dedupe) {
    var k = (h.message + h.stack).substr(0, 1e4);
    if (k === a) return;
    a = k; }\<close>
\<close>

definition fingerprint :: "env \<Rightarrow> payload \<Rightarrow> string" where
  "fingerprint ev hp = take 10000 (message hp @ to_string ev (stack hp))"

definition dedupe_phase :: "env \<Rightarrow> engine \<Rightarrow> payload \<Rightarrow> engine \<times> jsval option" where
  "dedupe_phase ev st hp =
     (if dedupe (current st)
      then (if lastFingerprint st = Some (fingerprint ev hp) then (st, None)
            else send_phase ev (st\<lparr>lastFingerprint := Some (fingerprint ev hp)\<rparr>) hp)
      else send_phase ev st hp)"

text \<open>
  \<^verbatim>\<open>if (!f.force)
    try {
      if (!this.config.current.onError(h, e)) return;
    } catch (m) {
      h.console.push({ timestamp: this.util.isoNow(), severity: 'error', message: m.message });
      var l = this;
      setTimeout(function () { l.onError('catch', m, { force: !0 }); }, 0);
    }\<close>

  Reading \<^verbatim>\<open>m.message\<close> of an \<^verbatim>\<open>undefined\<close> or \<^verbatim>\<open>null\<close> exception raises in the
  \<^verbatim>\<open>catch\<close> block.
\<close>

definition console_push :: "env \<Rightarrow> heap \<Rightarrow> addr \<Rightarrow> jsval \<Rightarrow> heap" where
  "console_push ev h c m =
     (let (h1, new) = alloc h (Obj [(''timestamp'', String (isoNow ev)), (''severity'', String ''error''),
                                    (''message'', get_prop h m ''message'')])
      in case cell_at h1 c of Some (Values vs) \<Rightarrow> store h1 c (Values (vs @ [new])) | _ \<Rightarrow> h1)"

definition hook_phase :: "env \<Rightarrow> engine \<Rightarrow> payload \<Rightarrow> jsval \<Rightarrow> bind \<Rightarrow> engine \<times> jsval option" where
  "hook_phase ev st hp e f =
     (if force f then dedupe_phase ev st hp
      else (let st1 = st\<lparr>hookCalls := hookCalls st @ [(hp, e)]\<rparr>
            in case config_onError (current st) hp e of
                 (hp1, Return v) \<Rightarrow>
                   (if \<not> truthy v then (st1, None) else dedupe_phase ev st1 hp1)
               | (hp1, Throw m) \<Rightarrow>
                   (if m = Undefined \<or> m = Null
                    then (st1, Some (host_TypeError ev ''Cannot read properties of undefined''))
                    else dedupe_phase ev
                           (st1\<lparr>mem := console_push ev (mem st1) (console hp1) m,
                                timers := timers st1 @ [Retry m]\<rparr>)
                           hp1)))"

text \<open>
  The assembly of the report: the object literal is evaluated property by property,
  which takes the four snapshots of the log in the order \<^verbatim>\<open>console\<close>, \<^verbatim>\<open>nav\<close>,
  \<^verbatim>\<open>network\<close>, \<^verbatim>\<open>visitor\<close>; \<^verbatim>\<open>c.defaultsDeep({}, ...)\<close> copies the properties and keeps
  the arrays by reference.
\<close>

definition assemble ::
  "env \<Rightarrow> engine \<Rightarrow> string \<Rightarrow> jsval \<Rightarrow> string \<Rightarrow> bind \<Rightarrow> jsval \<Rightarrow> js_error + (heap \<times> payload)" where
  "assemble ev st d e msg f ctx =
     (case log_all (mem st) (eventLog st) ''c'' of
        Inl x \<Rightarrow> Inl x
      | Inr (h1, c) \<Rightarrow>
     (case log_all h1 (eventLog st) ''h'' of
        Inl x \<Rightarrow> Inl x
      | Inr (h2, n) \<Rightarrow>
     (case log_all h2 (eventLog st) ''n'' of
        Inl x \<Rightarrow> Inl x
      | Inr (h3, w) \<Rightarrow>
     (case log_all h3 (eventLog st) ''v'' of
        Inl x \<Rightarrow> Inl x
      | Inr (h4, v) \<Rightarrow>
          Inr (h4,
               \<lparr>throttled = None,
                agentPlatform = (if isBrowser ev then ''browser'' else ''worker''),
                payload_bindStack = bindStack f,
                payload_bindTime = bindTime f,
                column = or_else (get_prop (mem st) e ''column'') (get_prop (mem st) e ''columnNumber''),
                console = c,
                entry_kind = d,
                payload_file = or_else (get_prop (mem st) e ''file'') (get_prop (mem st) e ''fileName''),
                line = or_else (get_prop (mem st) e ''line'') (get_prop (mem st) e ''lineNumber''),
                message = msg,
                nav = n,
                network = w,
                stack = get_prop (mem st) e ''stack'',
                timestamp = isoNow ev,
                visitor = v,
                collaborators = ctx\<rparr>)))))"

text \<open>
  The body of the \<^verbatim>\<open>try\<close> block of \<^verbatim>\<open>onError\<close>:

  \<^verbatim>\<open>f = f || { bindStack: null, bindTime: null, force: !1 };
  (e && c.isError(e)) || (e = { name: 'Error', message: this.serialize(e, f.force) });
  if (-1 === e.message.indexOf('Track Caught'))
    if (b && -1 !== e.message.indexOf('Script error')) b = !1;
    else { ... }\<close>

  A message that is not a string has no \<^verbatim>\<open>indexOf\<close> of strings: the call raises.
  \<open>ctx\<close> is what the collaborators report for this error.
\<close>

definition default_bind :: bind where
  "default_bind = \<lparr>bindStack = Null, bindTime = Null, force = False\<rparr>"

definition bind_of :: "bind option \<Rightarrow> bind" where
  "bind_of f = (case f of None \<Rightarrow> default_bind | Some g \<Rightarrow> g)"

definition normalizeError :: "engine \<Rightarrow> jsval \<Rightarrow> bind \<Rightarrow> jsval" where
  "normalizeError st e f =
     (if truthy e \<and> isError (mem st) e then e
      else Object ''Object'' [(''name'', String ''Error''),
                              (''message'', String (track_serialize st e (force f)))])"

definition onError_try ::
  "env \<Rightarrow> engine \<Rightarrow> string \<Rightarrow> jsval \<Rightarrow> bind option \<Rightarrow> jsval \<Rightarrow> engine \<times> jsval option" where
  "onError_try ev st d e0 f0 ctx =
     (let f = bind_of f0;
          e = normalizeError st e0 f
      in case get_prop (mem st) e ''message'' of
           String msg \<Rightarrow>
             (if - 1 = indexOf msg ''Track Caught''
              then (if reporting st \<and> - 1 \<noteq> indexOf msg ''Script error''
                    then (st\<lparr>reporting := False\<rparr>, None)
                    else (case assemble ev st d e msg f ctx of
                            Inl x \<Rightarrow> (st, Some (host_TypeError ev ''Cannot read properties of undefined''))
                          | Inr (h1, hp) \<Rightarrow> hook_phase ev (st\<lparr>mem := h1\<rparr>) hp e f))
              else (st, None))
         | _ \<Rightarrow> (st, Some (host_TypeError ev ''indexOf is not a function'')))"

text \<open>
  \<^verbatim>\<open>return function (d, e, f) {
    if (this.hasInstalled && this.hasEnabled && c.isBrowserSupported())
      try { ... } catch (m) { this.onFault(m); } };\<close>

  The result is the agent and the exception that leaves \<^verbatim>\<open>onError\<close>, if any. This
  is one activation of \<^verbatim>\<open>onError\<close>; \<open>onError_call\<close> below adds the calls that the
  network watcher makes from inside \<^verbatim>\<open>send\<close>.
\<close>

definition onError ::
  "env \<Rightarrow> engine \<Rightarrow> string \<Rightarrow> jsval \<Rightarrow> bind option \<Rightarrow> jsval \<Rightarrow> engine \<times> jsval option" where
  "onError ev st d e f ctx =
     (if hasInstalled st \<and> hasEnabled st \<and> browserSupported ev
      then (case onError_try ev st d e f ctx of
              (st1, None) \<Rightarrow> (st1, None)
            | (st1, Some m) \<Rightarrow> onFault ev st1 m)
      else (st, None))"

text \<open>
  A call of \<^verbatim>\<open>onError\<close>, with the calls of \<^verbatim>\<open>onError('ajax', a)\<close> that the watcher's
  \<^verbatim>\<open>send\<close> makes inside it. \<open>onError\<close> above is one activation of the function, up to
  the point where the watcher has caught an exception of the native \<^verbatim>\<open>send\<close>. The
  inner call is made there, with the agent as the outer activation has left it and
  without a third argument. When it returns, \<^verbatim>\<open>send\<close>, \<^verbatim>\<open>sendError\<close> and the outer
  activation return. When it raises, the exception leaves \<^verbatim>\<open>send\<close>; the \<^verbatim>\<open>catch\<close> clause
  of \<^verbatim>\<open>sendError\<close> disables the channel and rethrows, and the \<^verbatim>\<open>catch\<close> clause of the
  outer activation hands the exception to \<^verbatim>\<open>onFault\<close>.

  The host \<open>ev\<close> is the same for the activations of a call: its clock stands still,
  and the native \<^verbatim>\<open>send\<close> raises in an inner activation what it has raised in the outer
  one. So each inner activation finds the throttle one attempt further into the same
  window, and a call is a single activation when the host raises nothing (lemma
  \<open>onError_call_plain\<close>). \<open>budget\<close> bounds the attempts that
  the throttle still admits; the recursion descends on it. An activation that has left
  an exception with the watcher has passed the throttle, so the second test of the
  condition holds whenever the first does (lemma \<open>onError_nests\<close>).
\<close>

definition budget :: "env \<Rightarrow> 'w Transmitter \<Rightarrow> nat" where
  "budget ev t =
     (if lastAttempt (throttleStats t) + 1000 \<ge> now ev then 11 - attemptCount (throttleStats t)
      else 12)"

function onError_call ::
  "env \<Rightarrow> engine \<Rightarrow> string \<Rightarrow> jsval \<Rightarrow> bind option \<Rightarrow> jsval \<Rightarrow> engine \<times> jsval option" where
  "onError_call ev st d e f ctx =
     (case onError ev st d e f ctx of
        (st1, r) \<Rightarrow>
          (if ajaxCaught st1 \<noteq> ajaxCaught st \<and> budget ev (transmitter st1) < budget ev (transmitter st)
           then (case onError_call ev st1 ''ajax'' (last (ajaxCaught st1)) None ctx of
                   (st2, None) \<Rightarrow> (st2, None)
                 | (st2, Some m) \<Rightarrow>
                     onFault ev (st2\<lparr>transmitter := (transmitter st2)\<lparr>disabled := True\<rparr>\<rparr>) m)
           else (st1, r)))"
  by pat_completeness auto
termination
  by (relation "measure (\<lambda>(ev, st, d, e, f, ctx). budget ev (transmitter st))") auto

declare onError_call.simps [simp del]

text \<open>A pending timer fires: the guard flag is reset, or the report of the exception of
  the user hook is retried with \<^verbatim>\<open>force\<close>.\<close>

fun run_timer :: "env \<Rightarrow> engine \<Rightarrow> timer \<Rightarrow> jsval \<Rightarrow> engine \<times> jsval option" where
  "run_timer ev st ResetGuard ctx = (st\<lparr>reporting := False\<rparr>, None)"
| "run_timer ev st (Retry m) ctx =
     onError_call ev st ''catch'' m
       (Some \<lparr>bindStack = Undefined, bindTime = Undefined, force = True\<rparr>) ctx"

text \<open>
  The configuration \<^verbatim>\<open>q.prototype.defaults\<close>, as far as it is read here:
  \<^verbatim>\<open>dedupe: !0\<close>, \<^verbatim>\<open>onError: function () { return !0; }\<close>,
  \<^verbatim>\<open>callback: { enabled: !0, bindStack: !1 }\<close>; \<open>ser\<close> is the default serializer.
\<close>

definition defaults :: "(jsval \<Rightarrow> string) \<Rightarrow> config" where
  "defaults ser =
     \<lparr>dedupe = True,
      config_onError = (\<lambda>p e. (p, Return (Boolean True))),
      config_serialize = ser,
      defaults_serialize = ser,
      callback_bindStack = False\<rparr>"

text \<open>
  The agent after a successful \<^verbatim>\<open>install\<close> with the configuration \<open>cfg\<close> on a host with
  \<^verbatim>\<open>JSON.stringify\<close>: the constructor \<^verbatim>\<open>C\<close> has made the log (\<^verbatim>\<open>new x(c)\<close>),
  \<^verbatim>\<open>install\<close> has made the transmitter (\<^verbatim>\<open>new t(...)\<close>) at time \<open>time\<close>, read the
  token and set \<^verbatim>\<open>hasInstalled\<close>.
\<close>

definition installed :: "config \<Rightarrow> int \<Rightarrow> jsval \<Rightarrow> engine" where
  "installed cfg time token =
     \<lparr>hasInstalled = True,
      hasEnabled = True,
      mem = fst (log_new []),
      eventLog = snd (log_new []),
      transmitter = transmitter_new time True,
      current = cfg,
      customer_token = token,
      lastFingerprint = None,
      reporting = False,
      timers = [],
      hookCalls = [],
      ajaxCaught = []\<rparr>"

text \<open>A browser with cross-domain \<^verbatim>\<open>XMLHttpRequest\<close> at time \<open>time\<close>, in which nothing
  goes wrong; the network watcher is in place.\<close>

definition browser :: "int \<Rightarrow> env" where
  "browser time =
     \<lparr>now = time, isoNow = ''2020-01-01T00:00:00.000Z'', isBrowser = True, isWorker = False,
      xhrWithCredentials = True, hasXDomainRequest = False, browserSupported = True,
      hostThrows = None, raisedBySend = False, sendWatched = True,
      errorStack = String ''Error at <anonymous>'',
      objectToString = (\<lambda>v. ''[object Object]'')\<rparr>"

text \<open>
  The transmitter will issue a report that is offered at \<open>ev\<close>: the channel is enabled,
  the throttle admits the attempt (it opens a new window, or the window has seen fewer
  than 10 attempts), the host has a transport and raises nothing.
\<close>

definition admits :: "env \<Rightarrow> 'w Transmitter \<Rightarrow> bool" where
  "admits ev t =
     (\<not> disabled t \<and> hostThrows ev = None
      \<and> (if isBrowser ev then xhrWithCredentials ev \<or> hasXDomainRequest ev else isWorker ev)
      \<and> (if lastAttempt (throttleStats t) + 1000 \<ge> now ev
          then attemptCount (throttleStats t) < 10 else True))"

text \<open>The parts of the agent that \<^verbatim>\<open>onError\<close> never assigns: the flags, the
  configuration, the token, and the log object.\<close>

definition same_setup :: "engine \<Rightarrow> engine \<Rightarrow> bool" where
  "same_setup st st1 =
     (hasInstalled st1 = hasInstalled st \<and> hasEnabled st1 = hasEnabled st
      \<and> current st1 = current st \<and> customer_token st1 = customer_token st
      \<and> eventLog st1 = eventLog st)"

text \<open>
  The description of the cap in the words of the specification, to compare the loop
  with: the messages of the entries \<open>as\<close> are truncated, one after the other from the
  oldest.
\<close>

fun truncate_prefix :: "env \<Rightarrow> heap \<Rightarrow> addr list \<Rightarrow> heap" where
  "truncate_prefix ev h [] = h"
| "truncate_prefix ev h (a # as) = truncate_prefix ev (truncate_message ev h a) as"

text \<open>
  What the console watcher does with one call of a watched console function, as far as
  the log goes:

  \<^verbatim>\<open>e.log.add('c', { timestamp: e.util.isoNow(), severity: f,
                    message: e.serialize(1 === d.length ? d[0] : d) });\<close>

  \<open>arg\<close> is the value that is serialized, \<open>k\<close> the key that \<^verbatim>\<open>add\<close> draws.
\<close>

definition console_capture ::
  "env \<Rightarrow> engine \<Rightarrow> string \<Rightarrow> string \<Rightarrow> jsval \<Rightarrow> js_error + engine" where
  "console_capture ev st k severity arg =
     (case log_step (mem st) (eventLog st)
             (Add k ''c'' [(''timestamp'', String (isoNow ev)), (''severity'', String severity),
                           (''message'', String (track_serialize st arg False))]) of
        Inl x \<Rightarrow> Inl x
      | Inr (h1, l1) \<Rightarrow> Inr (st\<lparr>mem := h1, eventLog := l1\<rparr>))"

text \<open>Two conditions on the message of the console entry at \<open>a\<close>: its length counts
  and is at most 1021 (the most a truncated message can have), and its string form is
  shorter than \<open>10 ^ 16\<close> (every JavaScript string is shorter than \<open>2 ^ 53\<close>).\<close>

definition small :: "heap \<Rightarrow> addr \<Rightarrow> bool" where
  "small h a = (\<exists>n\<le>1021. message_length (get_prop h (Ref a) ''message'') = Some n)"

definition sane :: "env \<Rightarrow> heap \<Rightarrow> addr \<Rightarrow> bool" where
  "sane ev h a = (length (to_string ev (get_prop h (Ref a) ''message'')) < 10 ^ 16)"

section \<open>The function wrapper\<close>
























section \<open>Facts about the log\<close>

lemma all_loop_filter: "all_loop xs a b = b @ map val (filter (\<lambda>d. category d = a) xs)"
  by (induction xs arbitrary: b) auto

lemma cell_at_alloc_new: "cell_at (fst (alloc h c)) (snd (alloc h c)) = Some c"
  by (simp add: cell_at_def alloc_def)

lemma cell_at_append_old: "a < length h \<Longrightarrow> cell_at (h @ cs) a = cell_at h a"
  by (simp add: cell_at_def nth_append)

lemma cell_at_store_same: "a < length h \<Longrightarrow> cell_at (store h a c) a = Some c"
  by (simp add: cell_at_def store_def)

lemma cell_at_store_other: "a \<noteq> b \<Longrightarrow> cell_at (store h a c) b = cell_at h b"
  by (simp add: cell_at_def store_def)

lemma length_store: "length (store h a c) = length h"
  by (simp add: store_def)

lemma log_entries_wf: "log_wf h l \<Longrightarrow> \<exists>xs. log_entries h l = Inr xs"
  by (auto simp: log_wf_def log_entries_def split: option.splits cell.splits)

lemma log_entries_Inr_iff:
  "log_entries h l = Inr xs \<longleftrightarrow> appender l < length h \<and> h ! appender l = Entries xs"
  by (auto simp: log_entries_def cell_at_def split: cell.splits)

lemma log_add_entries:
  assumes "log_entries h l = Inr xs"
  shows "\<exists>h1 l1. log_add h l d a b = Inr (h1, l1, d) \<and> maxLength l1 = maxLength l
           \<and> length h \<le> length h1
           \<and> (appender l1 = appender l \<or> length h \<le> appender l1)
           \<and> (\<forall>p < length h. p \<noteq> appender l \<longrightarrow> cell_at h1 p = cell_at h p)
           \<and> log_entries h1 l1 =
               Inr (drop (length (xs @ [\<lparr>key = d, category = a, val = b\<rparr>]) - maxLength l)
                      (xs @ [\<lparr>key = d, category = a, val = b\<rparr>]))"
proof -
  let ?ys = "xs @ [\<lparr>key = d, category = a, val = b\<rparr>]"
  let ?h0 = "store h (appender l) (Entries ?ys)"
  from assms have A: "appender l < length h" and B: "h ! appender l = Entries xs"
    by (simp_all add: log_entries_Inr_iff)
  have E0: "log_entries ?h0 l = Inr ?ys"
    using A by (simp add: log_entries_Inr_iff store_def)
  have F0: "\<forall>p < length h. p \<noteq> appender l \<longrightarrow> cell_at ?h0 p = cell_at h p"
    by (simp add: cell_at_store_other)
  show ?thesis
  proof (cases "length ?ys > maxLength l")
    case True
    let ?h1 = "?h0 @ [Entries (drop (length ?ys - maxLength l) ?ys)]"
    let ?l1 = "l\<lparr>appender := length ?h0\<rparr>"
    have T: "log_truncate ?h0 l = Inr (?h1, ?l1)"
      using True E0 by (simp add: log_truncate_def alloc_def nat_diff_distrib' del: length_append)
    have "log_add h l d a b = Inr (?h1, ?l1, d)"
      using assms T by (simp add: log_add_def)
    moreover have "log_entries ?h1 ?l1 = Inr (drop (length ?ys - maxLength l) ?ys)"
      by (simp add: log_entries_Inr_iff)
    moreover have "\<forall>p < length h. p \<noteq> appender l \<longrightarrow> cell_at ?h1 p = cell_at h p"
      using F0 by (simp add: cell_at_append_old length_store)
    ultimately show ?thesis by (simp add: length_store)
  next
    case False
    have T: "log_truncate ?h0 l = Inr (?h0, l)"
      using False E0 by (simp add: log_truncate_def)
    have "log_add h l d a b = Inr (?h0, l, d)"
      using assms T by (simp add: log_add_def)
    moreover have "drop (length ?ys - maxLength l) ?ys = ?ys"
      using False by simp
    ultimately show ?thesis using E0 F0 by (simp add: length_store)
  qed
qed

lemma drop_window:
  "drop (length (drop (length zs - m) zs @ rest) - m) (drop (length zs - m) zs @ rest)
     = drop (length (zs @ rest) - m) (zs @ (rest::'a list))"
proof (cases "length zs \<le> m")
  case True
  then show ?thesis by simp
next
  case False
  then have "length (drop (length zs - m) zs @ rest) - m = length rest"
    by simp
  moreover from False have "length (zs @ rest) - m = (length zs - m) + length rest"
    by simp
  ultimately show ?thesis
    by (simp add: add.commute [of "length zs - m"] flip: drop_drop)
qed

lemma log_adds_entries:
  "log_entries h l = Inr xs \<Longrightarrow> length xs \<le> maxLength l \<Longrightarrow>
   \<exists>h1 l1. log_adds h l ts = Inr (h1, l1) \<and> maxLength l1 = maxLength l
     \<and> log_entries h1 l1 =
         Inr (drop (length (xs @ map mk_entry ts) - maxLength l) (xs @ map mk_entry ts))"
proof (induction ts arbitrary: h l xs)
  case Nil
  then show ?case
    by (simp add: log_entries_Inr_iff)
next
  case (Cons t ts)
  obtain d a b where t: "t = (d, a, b)" by (cases t)
  let ?zs = "xs @ [mk_entry t]"
  from log_add_entries [OF Cons.prems(1), of d a b] obtain h1 l1 where
    A: "log_add h l d a b = Inr (h1, l1, d)" and M: "maxLength l1 = maxLength l" and
    E: "log_entries h1 l1 = Inr (drop (length ?zs - maxLength l) ?zs)"
    by (auto simp: t mk_entry_def)
  have "length (drop (length ?zs - maxLength l) ?zs) \<le> maxLength l1"
    by (simp add: M)
  from Cons.IH [OF E this] obtain h2 l2 where
    B: "log_adds h1 l1 ts = Inr (h2, l2)" and M2: "maxLength l2 = maxLength l1" and
    E2: "log_entries h2 l2 =
           Inr (drop (length (drop (length ?zs - maxLength l) ?zs @ map mk_entry ts) - maxLength l1)
                  (drop (length ?zs - maxLength l) ?zs @ map mk_entry ts))"
    by blast
  have "log_adds h l (t # ts) = Inr (h2, l2)"
    using A B by (simp add: t)
  moreover have "log_entries h2 l2 =
      Inr (drop (length (xs @ map mk_entry (t # ts)) - maxLength l) (xs @ map mk_entry (t # ts)))"
    using E2 drop_window [of ?zs "maxLength l" "map mk_entry ts"] by (simp add: M)
  ultimately show ?case using M M2 by simp
qed

lemma log_new_entries:
  "log_entries (fst (log_new h0)) (snd (log_new h0)) = Inr [] \<and> maxLength (snd (log_new h0)) = 30"
  by (simp add: log_new_def alloc_def log_entries_Inr_iff)

lemma log_all_result:
  "log_entries h l = Inr xs \<Longrightarrow>
   log_all h l c = Inr (h @ [Values (map val (filter (\<lambda>d. category d = c) xs))], length h)"
  by (simp add: log_all_def alloc_def store_def all_loop_filter)

section \<open>The claims about the log\<close>

text \<open>
  Claim C3. The event log is bounded. Start from a newly constructed log and make any
  sequence \<open>ts\<close> of \<^verbatim>\<open>add(category, value)\<close> calls. Then no call raises, the log holds
  exactly the last 30 of the added entries in the order of the calls (so at most 30 in
  all categories together, and what was evicted is the oldest entries of the whole log,
  whatever their category), and \<^verbatim>\<open>all(category)\<close> returns a new array with the values of
  the surviving entries of that category, in insertion order.
\<close>

theorem log_bounded_fifo:
  "\<exists>h1 l1. log_adds (fst (log_new h0)) (snd (log_new h0)) ts = Inr (h1, l1)
     \<and> log_entries h1 l1 = Inr (drop (length ts - 30) (map mk_entry ts))
     \<and> length (drop (length ts - 30) (map mk_entry ts)) \<le> 30
     \<and> (\<forall>c. \<exists>h2 s. log_all h1 l1 c = Inr (h2, s)
           \<and> cell_at h2 s =
               Some (Values (map val (filter (\<lambda>d. category d = c)
                                        (drop (length ts - 30) (map mk_entry ts))))))"
proof -
  from log_new_entries [of h0] have N: "log_entries (fst (log_new h0)) (snd (log_new h0)) = Inr []"
    and M: "maxLength (snd (log_new h0)) = 30" by simp_all
  from log_adds_entries [OF N, of ts] M obtain h1 l1 where
    A: "log_adds (fst (log_new h0)) (snd (log_new h0)) ts = Inr (h1, l1)" and
    E: "log_entries h1 l1 = Inr (drop (length ts - 30) (map mk_entry ts))"
    by auto
  have "\<exists>h2 s. log_all h1 l1 c = Inr (h2, s)
           \<and> cell_at h2 s =
               Some (Values (map val (filter (\<lambda>d. category d = c)
                                        (drop (length ts - 30) (map mk_entry ts)))))" for c
    using log_all_result [OF E, of c] by (simp add: cell_at_def)
  with A E show ?thesis by simp
qed

subsection \<open>What a step of the log leaves alone\<close>

lemma set_prop_length: "length (set_prop h b k v) = length h"
  by (simp add: set_prop_def length_store split: option.splits cell.splits)

lemma set_prop_Values:
  "cell_at h p = Some (Values vs) \<Longrightarrow> cell_at (set_prop h b k v) p = Some (Values vs)"
  by (cases "p = b") (simp_all add: set_prop_def cell_at_store_other split: option.splits cell.splits)

lemma set_prop_Entries:
  "cell_at h p = Some (Entries vs) \<Longrightarrow> cell_at (set_prop h b k v) p = Some (Entries vs)"
  by (cases "p = b") (simp_all add: set_prop_def cell_at_store_other split: option.splits cell.splits)

lemma log_entries_cell: "log_entries h l = Inr xs \<longleftrightarrow> cell_at h (appender l) = Some (Entries xs)"
  by (auto simp: log_entries_def split: option.splits cell.splits)

lemma frame_from_all:
  assumes "length h \<le> length h1" "log_entries h l = Inr xs" "log_entries h1 l1 = Inr ys"
    "appender l1 = appender l \<or> length h \<le> appender l1" "frame_all h l h1"
  shows "frame h l h1 l1"
proof -
  have "cell_at h1 p = Some (Values vs)" if "cell_at h p = Some (Values vs)" for p vs
  proof -
    from that have "p < length h" by (simp add: cell_at_def split: if_splits)
    moreover from that assms(2) have "p \<noteq> appender l" by (auto simp: log_entries_cell)
    ultimately show ?thesis using assms(5) that by (simp add: frame_all_def)
  qed
  with assms show ?thesis by (auto simp: frame_def)
qed

lemma add_frame:
  assumes E0: "log_entries h l = Inr xs"
    and "log_step h l (Add d a ps) = Inr (h1, l1)"
  shows "frame h l h1 l1 \<and> frame_all h l h1"
proof -
  from E0 have E: "log_entries (h @ [Obj ps]) l = Inr xs"
    by (simp add: log_entries_Inr_iff nth_append)
  from log_add_entries [OF E, of d a "length h"] obtain h2 l2 where
    R: "log_add (h @ [Obj ps]) l d a (length h) = Inr (h2, l2, d)"
    and L: "length (h @ [Obj ps]) \<le> length h2"
    and A: "appender l2 = appender l \<or> length (h @ [Obj ps]) \<le> appender l2"
    and F: "\<forall>p < length (h @ [Obj ps]). p \<noteq> appender l \<longrightarrow> cell_at h2 p = cell_at (h @ [Obj ps]) p"
    and E1: "\<exists>ys. log_entries h2 l2 = Inr ys"
    by blast
  from R assms(2) have eq: "h1 = h2" "l1 = l2"
    by (simp_all add: alloc_def)
  have FA: "frame_all h l h1"
    using F by (simp add: frame_all_def cell_at_append_old eq)
  from E1 obtain ys where "log_entries h1 l1 = Inr ys" by (auto simp: eq)
  from frame_from_all [OF _ E0 this _ FA] L A FA show ?thesis
    by (auto simp: eq)
qed

lemma clear_frame:
  assumes E0: "log_entries h l = Inr xs"
    and "log_step h l Clear = Inr (h1, l1)"
  shows "frame h l h1 l1 \<and> frame_all h l h1"
proof -
  from assms have H: "h1 = store h (appender l) (Entries [])" and L: "l1 = l"
    by (auto simp: log_clear_def)
  have FA: "frame_all h l h1"
    by (simp add: frame_all_def H cell_at_store_other)
  have "log_entries h1 l1 = Inr []"
    using E0 by (simp add: H L log_entries_Inr_iff store_def)
  from frame_from_all [OF _ E0 this _ FA] show ?thesis
    using FA by (simp add: H L length_store)
qed

lemma all_frame:
  assumes E0: "log_entries h l = Inr xs"
    and "log_step h l (All c) = Inr (h1, l1)"
  shows "frame h l h1 l1 \<and> frame_all h l h1"
proof -
  from assms(2) log_all_result [OF E0, of c]
  have H: "h1 = h @ [Values (map val (filter (\<lambda>d. category d = c) xs))]" and L: "l1 = l"
    by auto
  have FA: "frame_all h l h1"
    by (simp add: frame_all_def H cell_at_append_old)
  have "log_entries h1 l1 = Inr xs"
    using E0 by (simp add: H L log_entries_Inr_iff nth_append)
  from frame_from_all [OF _ E0 this _ FA] show ?thesis
    using FA by (simp add: H L)
qed

lemma get_frame:
  assumes E0: "log_entries h l = Inr xs"
    and "log_step h l (Get a b) = Inr (h1, l1)"
  shows "frame h l h1 l1 \<and> frame_all h l h1"
proof -
  from assms have H: "h1 = h" and L: "l1 = l"
    by (auto simp: log_get_def)
  have FA: "frame_all h l h1"
    by (simp add: frame_all_def H)
  from frame_from_all [OF _ E0 _ _ FA, of l1 xs] show ?thesis
    using FA E0 by (simp add: H L)
qed

lemma finalize_frame:
  assumes E0: "log_entries h l = Inr xs"
    and "log_step h l (Finalize tm x) = Inr (h1, l1)"
  shows "frame h l h1 l1"
proof -
  from assms(2) have L: "l1 = l" and FN: "finalizeNetworkEvent tm h l x = Inr h1"
    by (cases "finalizeNetworkEvent tm h l x"; simp)+
  have "h1 = h \<or> (\<exists>b k1 v1 k2 v2 k3 v3. h1 = set_prop (set_prop (set_prop h b k1 v1) b k2 v2) b k3 v3)"
  proof (cases "trackJs x")
    case None
    with FN show ?thesis by (simp add: finalizeNetworkEvent_def)
  next
    case (Some logId)
    show ?thesis
    proof (cases "get_loop xs ''n'' logId")
      case None
      with FN Some E0 show ?thesis by (simp add: finalizeNetworkEvent_def log_get_def)
    next
      case (Some b)
      with FN \<open>trackJs x = Some logId\<close> E0 have
        "h1 = set_prop (set_prop (set_prop h b ''completedOn'' (String tm)) b ''statusCode''
                 (Number (if status x = 1223 then 204 else status x)))
                 b ''statusText'' (String (if status x = 1223 then ''No Content'' else statusText x))"
        by (simp add: finalizeNetworkEvent_def log_get_def)
      then show ?thesis by blast
    qed
  qed
  then show ?thesis
  proof
    assume "h1 = h"
    then show ?thesis using E0 by (simp add: frame_def L)
  next
    assume "\<exists>b k1 v1 k2 v2 k3 v3. h1 = set_prop (set_prop (set_prop h b k1 v1) b k2 v2) b k3 v3"
    then obtain b k1 v1 k2 v2 k3 v3 where H: "h1 = set_prop (set_prop (set_prop h b k1 v1) b k2 v2) b k3 v3"
      by blast
    have "log_entries h1 l1 = Inr xs"
      using E0 by (simp add: H L log_entries_cell set_prop_Entries)
    then show ?thesis
      by (simp add: frame_def H L set_prop_length set_prop_Values)
  qed
qed

lemma log_step_frame:
  assumes "log_entries h l = Inr xs" and "log_step h l x = Inr (h1, l1)"
  shows "frame h l h1 l1" and "\<not> is_Finalize x \<Longrightarrow> frame_all h l h1"
proof -
  show "frame h l h1 l1"
  proof (cases x)
    case (Add d a ps) with assms add_frame show ?thesis by blast
  next
    case Clear with assms clear_frame show ?thesis by blast
  next
    case (All c) with assms all_frame show ?thesis by blast
  next
    case (Get a b) with assms get_frame show ?thesis by blast
  next
    case (Finalize tm y) with assms finalize_frame show ?thesis by blast
  qed
  show "frame_all h l h1" if "\<not> is_Finalize x"
  proof (cases x)
    case (Add d a ps) with assms add_frame show ?thesis by blast
  next
    case Clear with assms clear_frame show ?thesis by blast
  next
    case (All c) with assms all_frame show ?thesis by blast
  next
    case (Get a b) with assms get_frame show ?thesis by blast
  next
    case (Finalize tm y) with that show ?thesis by simp
  qed
qed

lemma log_run_frame:
  assumes "log_run h l ops = Inr (h2, l2)"
    and "log_entries h l = Inr xs"
    and "length h0 \<le> length h"
    and "appender l = a0 \<or> length h0 \<le> appender l"
  shows "(\<forall>p vs. cell_at h p = Some (Values vs) \<longrightarrow> cell_at h2 p = Some (Values vs))
       \<and> (list_all (\<lambda>x. \<not> is_Finalize x) ops \<longrightarrow>
            (\<forall>p < length h0. p \<noteq> a0 \<longrightarrow> cell_at h2 p = cell_at h p))"
  using assms
proof (induction ops arbitrary: h l xs)
  case Nil
  then show ?case by simp
next
  case (Cons x ops)
  have "\<exists>h1 l1. log_step h l x = Inr (h1, l1) \<and> log_run h1 l1 ops = Inr (h2, l2)"
  proof (cases "log_step h l x")
    case (Inl e) with Cons.prems(1) show ?thesis by simp
  next
    case (Inr r) with Cons.prems(1) show ?thesis by (cases r) simp
  qed
  then obtain h1 l1 where S: "log_step h l x = Inr (h1, l1)"
    and R: "log_run h1 l1 ops = Inr (h2, l2)" by blast
  from log_step_frame(1) [OF Cons.prems(2) S] have F: "frame h l h1 l1" .
  then have L1: "length h0 \<le> length h1" and A1: "appender l1 = a0 \<or> length h0 \<le> appender l1"
    using Cons.prems(3,4) by (auto simp: frame_def)
  from F obtain ys where E1: "log_entries h1 l1 = Inr ys" by (auto simp: frame_def)
  note IH = Cons.IH [OF R E1 L1 A1]
  have V: "\<forall>p vs. cell_at h p = Some (Values vs) \<longrightarrow> cell_at h2 p = Some (Values vs)"
    using F IH by (simp add: frame_def)
  have "\<forall>p < length h0. p \<noteq> a0 \<longrightarrow> cell_at h2 p = cell_at h p"
    if N: "list_all (\<lambda>x. \<not> is_Finalize x) (x # ops)"
  proof (intro allI impI)
    fix p assume p: "p < length h0" "p \<noteq> a0"
    from N have "frame_all h l h1" using log_step_frame(2) [OF Cons.prems(2) S] by simp
    moreover have "p \<noteq> appender l" using p Cons.prems(4) by auto
    ultimately have "cell_at h1 p = cell_at h p"
      using p Cons.prems(3) by (simp add: frame_all_def)
    moreover from N IH p have "cell_at h2 p = cell_at h1 p" by simp
    ultimately show "cell_at h2 p = cell_at h p" by simp
  qed
  with V show ?case by blast
qed

text \<open>
  Claim C9, as the code has it. \<^verbatim>\<open>all(category)\<close> returns a new array of references to
  the values of the log. Whatever is done to the log afterwards (appends with their
  evictions, \<^verbatim>\<open>clear\<close>, further snapshots, lookups, in-place completion of a network
  entry found by \<^verbatim>\<open>get\<close>), the array holds the same references in the same order. When
  no entry is completed in place, the objects behind the references are unchanged too,
  so the holder of the snapshot sees no difference at all.
\<close>

theorem snapshot_shallow_copy:
  assumes "values_are_objects h l"
    and "log_all h l c = Inr (h1, s)"
    and "log_run h1 l ops = Inr (h2, l2)"
  shows "cell_at h2 s = cell_at h1 s
       \<and> (list_all (\<lambda>x. \<not> is_Finalize x) ops \<longrightarrow> snapshot_view h2 s = snapshot_view h1 s)"
proof -
  from assms(1) obtain xs where E0: "log_entries h l = Inr xs"
    and O: "list_all (\<lambda>d. case cell_at h (val d) of Some (Obj ps) \<Rightarrow> True | _ \<Rightarrow> False) xs"
    by (cases "log_entries h l") (simp_all add: values_are_objects_def)
  let ?vs = "map val (filter (\<lambda>d. category d = c) xs)"
  from assms(2) log_all_result [OF E0, of c] have H1: "h1 = h @ [Values ?vs]" and S: "s = length h"
    by auto
  have E1: "log_entries h1 l = Inr xs"
    using E0 by (simp add: H1 log_entries_Inr_iff nth_append)
  have C1: "cell_at h1 s = Some (Values ?vs)"
    by (simp add: H1 S cell_at_def)
  from log_run_frame [OF assms(3) E1, of h1 "appender l"]
  have V: "\<forall>p vs. cell_at h1 p = Some (Values vs) \<longrightarrow> cell_at h2 p = Some (Values vs)"
    and A: "list_all (\<lambda>x. \<not> is_Finalize x) ops \<longrightarrow>
            (\<forall>p < length h1. p \<noteq> appender l \<longrightarrow> cell_at h2 p = cell_at h1 p)"
    by simp_all
  from V C1 have C2: "cell_at h2 s = Some (Values ?vs)" by blast
  have "snapshot_view h2 s = snapshot_view h1 s" if N: "list_all (\<lambda>x. \<not> is_Finalize x) ops"
  proof -
    have "cell_at h2 v = cell_at h1 v" if "v \<in> set ?vs" for v
    proof -
      from that obtain d where d: "d \<in> set xs" "v = val d" by auto
      with O have "case cell_at h v of Some (Obj ps) \<Rightarrow> True | _ \<Rightarrow> False"
        by (simp add: list_all_iff)
      then obtain ps where P: "cell_at h v = Some (Obj ps)"
        by (cases "cell_at h v"; cases "the (cell_at h v)") simp_all
      then have "v < length h" by (simp add: cell_at_def split: if_splits)
      moreover from P E0 have "v \<noteq> appender l" by (auto simp: log_entries_cell)
      ultimately show ?thesis using A N by (simp add: H1)
    qed
    then have "map (\<lambda>v. (v, cell_at h2 v)) ?vs = map (\<lambda>v. (v, cell_at h1 v)) ?vs"
      by (intro map_cong) simp_all
    then show ?thesis by (simp add: snapshot_view_def C1 C2)
  qed
  with C1 C2 show ?thesis by simp
qed

theorem snapshot_shallow_copy_witness:
  "values_are_objects
      [Entries [\<lparr>key = ''k1'', category = ''n'', val = 1\<rparr>], Obj [(''type'', String ''xhr'')]]
      \<lparr>appender = 0, maxLength = 30\<rparr>
   \<and> log_all
      [Entries [\<lparr>key = ''k1'', category = ''n'', val = 1\<rparr>], Obj [(''type'', String ''xhr'')]]
      \<lparr>appender = 0, maxLength = 30\<rparr> ''n''
     = Inr ([Entries [\<lparr>key = ''k1'', category = ''n'', val = 1\<rparr>], Obj [(''type'', String ''xhr'')],
             Values [1]], 2)
   \<and> log_run
      [Entries [\<lparr>key = ''k1'', category = ''n'', val = 1\<rparr>], Obj [(''type'', String ''xhr'')],
       Values [1]]
      \<lparr>appender = 0, maxLength = 30\<rparr>
      [Add ''k2'' ''c'' [(''message'', String ''hi'')], Clear]
     = Inr ([Entries [], Obj [(''type'', String ''xhr'')], Values [1], Obj [(''message'', String ''hi'')]],
            \<lparr>appender = 0, maxLength = 30\<rparr>)
   \<and> snapshot_view
      [Entries [], Obj [(''type'', String ''xhr'')], Values [1], Obj [(''message'', String ''hi'')]] 2
     = snapshot_view
      [Entries [\<lparr>key = ''k1'', category = ''n'', val = 1\<rparr>], Obj [(''type'', String ''xhr'')],
       Values [1]] 2"
proof -
  let ?h = "[Entries [\<lparr>key = ''k1'', category = ''n'', val = 1\<rparr>], Obj [(''type'', String ''xhr'')]]"
  let ?l = "\<lparr>appender = 0, maxLength = 30\<rparr>"
  let ?h1 = "?h @ [Values [1]]"
  let ?h2 = "[Entries [], Obj [(''type'', String ''xhr'')], Values [1], Obj [(''message'', String ''hi'')]]"
  have a: "values_are_objects ?h ?l"
    by (simp add: values_are_objects_def log_entries_def cell_at_def)
  have b: "log_all ?h ?l ''n'' = Inr (?h1, 2)"
    by (simp add: log_all_def log_entries_def cell_at_def alloc_def store_def)
  have c: "log_run ?h1 ?l [Add ''k2'' ''c'' [(''message'', String ''hi'')], Clear] = Inr (?h2, ?l)"
    by (simp add: log_add_def log_truncate_def log_clear_def log_entries_def cell_at_def
        alloc_def store_def)
  from snapshot_shallow_copy [OF a b c] a b c show ?thesis by simp
qed

text \<open>
  Claim C9 as stated fails for in-place completion. A network entry is added to a new
  log, \<^verbatim>\<open>all('n')\<close> takes the snapshot at address 2, and the request completes: what the
  holder of the snapshot sees has changed, since the snapshot and the log share the
  value object at address 1.
\<close>

theorem snapshot_completion_counterexample:
  "log_step (fst (log_new [])) (snd (log_new [])) (Add ''k1'' ''n'' [(''type'', String ''xhr'')])
     = Inr ([Entries [\<lparr>key = ''k1'', category = ''n'', val = 1\<rparr>], Obj [(''type'', String ''xhr'')]],
            \<lparr>appender = 0, maxLength = 30\<rparr>)
   \<and> log_all
      [Entries [\<lparr>key = ''k1'', category = ''n'', val = 1\<rparr>], Obj [(''type'', String ''xhr'')]]
      \<lparr>appender = 0, maxLength = 30\<rparr> ''n''
     = Inr ([Entries [\<lparr>key = ''k1'', category = ''n'', val = 1\<rparr>], Obj [(''type'', String ''xhr'')],
             Values [1]], 2)
   \<and> log_run
      [Entries [\<lparr>key = ''k1'', category = ''n'', val = 1\<rparr>], Obj [(''type'', String ''xhr'')],
       Values [1]]
      \<lparr>appender = 0, maxLength = 30\<rparr>
      [Finalize ''2020-01-01T00:00:00.000Z'' \<lparr>trackJs = Some ''k1'', status = 200, statusText = ''OK''\<rparr>]
     = Inr ([Entries [\<lparr>key = ''k1'', category = ''n'', val = 1\<rparr>],
             Obj [(''type'', String ''xhr''), (''completedOn'', String ''2020-01-01T00:00:00.000Z''),
                  (''statusCode'', Number 200), (''statusText'', String ''OK'')],
             Values [1]],
            \<lparr>appender = 0, maxLength = 30\<rparr>)
   \<and> snapshot_view
       [Entries [\<lparr>key = ''k1'', category = ''n'', val = 1\<rparr>],
        Obj [(''type'', String ''xhr''), (''completedOn'', String ''2020-01-01T00:00:00.000Z''),
             (''statusCode'', Number 200), (''statusText'', String ''OK'')],
        Values [1]] 2
     \<noteq> snapshot_view
       [Entries [\<lparr>key = ''k1'', category = ''n'', val = 1\<rparr>], Obj [(''type'', String ''xhr'')],
        Values [1]] 2"
  by (simp add: log_new_def log_add_def log_truncate_def log_all_def log_get_def log_entries_def
      finalizeNetworkEvent_def set_prop_def cell_at_def alloc_def store_def snapshot_view_def)

section \<open>The claims about the transmitter\<close>

subsection \<open>Throttling\<close>

lemma throttle_in_window:
  "lastAttempt (throttleStats t) + 1000 \<ge> b \<Longrightarrow>
   throttle b t a =
     (10 < attemptCount (throttleStats t) + 1, a,
      t\<lparr>throttleStats :=
          \<lparr>attemptCount = attemptCount (throttleStats t) + 1,
           throttledCount = throttledCount (throttleStats t)
                            + (if 10 < attemptCount (throttleStats t) + 1 then 1 else 0),
           lastAttempt = b\<rparr>\<rparr>)"
  by (simp add: throttle_def Let_def)

lemma throttle_new_window:
  "lastAttempt (throttleStats t) + 1000 < b \<Longrightarrow>
   throttle b t a =
     (False, a\<lparr>throttled := Some (throttledCount (throttleStats t))\<rparr>,
      t\<lparr>throttleStats := \<lparr>attemptCount = 0, throttledCount = 0, lastAttempt = b\<rparr>\<rparr>)"
  by (simp add: throttle_def Let_def)

lemma upt_shift: "map f [Suc 0..<Suc (Suc n)] = f (Suc 0) # map (\<lambda>i. f (Suc i)) [Suc 0..<Suc n]"
proof -
  have "[Suc 0..<Suc (Suc n)] = Suc 0 # map Suc [Suc 0..<Suc n]"
    by (simp add: upt_conv_Cons map_Suc_upt del: upt_Suc)
  then show ?thesis by (simp add: comp_def del: upt_Suc)
qed

lemma throttle_run_rolling:
  "rolling (lastAttempt (throttleStats t)) (map fst xs) \<Longrightarrow>
   throttle_run xs t = (rs, t1) \<Longrightarrow>
   map fst rs = map (\<lambda>i. 10 < attemptCount (throttleStats t) + i) [Suc 0..<Suc (length xs)]
   \<and> map snd rs = map snd xs
   \<and> attemptCount (throttleStats t1) = attemptCount (throttleStats t) + length xs
   \<and> throttledCount (throttleStats t1)
       = throttledCount (throttleStats t) + length (filter (\<lambda>r. r) (map fst rs))"
proof (induction xs arbitrary: t rs t1)
  case Nil
  then show ?case by simp
next
  case (Cons x xs)
  obtain b a where x: "x = (b, a)" by (cases x)
  from Cons.prems(1) have W: "lastAttempt (throttleStats t) + 1000 \<ge> b"
    and R: "rolling b (map fst xs)" by (simp_all add: x)
  let ?t1 = "t\<lparr>throttleStats :=
          \<lparr>attemptCount = attemptCount (throttleStats t) + 1,
           throttledCount = throttledCount (throttleStats t)
                            + (if 10 < attemptCount (throttleStats t) + 1 then 1 else 0),
           lastAttempt = b\<rparr>\<rparr>"
  obtain rs' t2 where T: "throttle_run xs ?t1 = (rs', t2)" by (cases "throttle_run xs ?t1")
  from Cons.prems(2) T have rs: "rs = (10 < attemptCount (throttleStats t) + 1, a) # rs'" and t1: "t1 = t2"
    by (simp_all add: x throttle_in_window [OF W])
  from R have R': "rolling (lastAttempt (throttleStats ?t1)) (map fst xs)" by simp
  have sel: "attemptCount (throttleStats ?t1) = attemptCount (throttleStats t) + 1"
    "throttledCount (throttleStats ?t1) = throttledCount (throttleStats t)
        + (if 10 < attemptCount (throttleStats t) + 1 then 1 else 0)"
    by simp_all
  from Cons.IH [OF R' T, unfolded sel] have
    I1: "map fst rs' = map (\<lambda>i. 10 < attemptCount (throttleStats t) + 1 + i) [Suc 0..<Suc (length xs)]"
    and I2: "map snd rs' = map snd xs"
    and I3: "attemptCount (throttleStats t2) = attemptCount (throttleStats t) + 1 + length xs"
    and I4: "throttledCount (throttleStats t2)
       = throttledCount (throttleStats t) + (if 10 < attemptCount (throttleStats t) + 1 then 1 else 0)
         + length (filter (\<lambda>r. r) (map fst rs'))"
    by blast+
  have G1: "map fst rs = map (\<lambda>i. 10 < attemptCount (throttleStats t) + i) [Suc 0..<Suc (length (x # xs))]"
    using upt_shift [of "\<lambda>i. 10 < attemptCount (throttleStats t) + i" "length xs"]
    by (simp add: rs I1 del: upt_Suc)
  have G2: "map snd rs = map snd (x # xs)"
    by (simp add: rs I2 x)
  have G3: "attemptCount (throttleStats t1) = attemptCount (throttleStats t) + length (x # xs)"
    by (simp add: t1 I3)
  have "map fst rs = (10 < attemptCount (throttleStats t) + 1) # map fst rs'"
    by (simp add: rs)
  then have G4: "throttledCount (throttleStats t1)
       = throttledCount (throttleStats t) + length (filter (\<lambda>r. r) (map fst rs))"
    by (simp only: t1 I4 filter.simps list.size split: if_splits) simp
  from G1 G2 G3 G4 show ?case by blast
qed

text \<open>
  Claim C4, as the code has it. Take a run of admission attempts in which each attempt
  comes at most 1000 ms after the one before (the first at most 1000 ms after
  \<^verbatim>\<open>lastAttempt\<close>), so that the rolling window is never left. Every attempt increments
  \<^verbatim>\<open>attemptCount\<close>; the \<open>i\<close>-th attempt is rejected exactly when the count it reaches is
  more than 10, no payload is annotated, and the rejected attempts are counted in
  \<^verbatim>\<open>throttledCount\<close>. An attempt more than 1000 ms after the last one opens a new
  window: it is admitted, its payload is annotated with the number of attempts throttled
  before, and the counters are reset to zero, so that the opening attempt itself is not
  counted.
\<close>

theorem throttle_rolling_window:
  assumes "rolling (lastAttempt (throttleStats t)) (map fst xs)"
    and "throttle_run xs t = (rs, t1)"
    and "lastAttempt (throttleStats t1) + 1000 < b"
  shows "map fst rs = map (\<lambda>i. 10 < attemptCount (throttleStats t) + i) [Suc 0..<Suc (length xs)]
     \<and> map snd rs = map snd xs
     \<and> attemptCount (throttleStats t1) = attemptCount (throttleStats t) + length xs
     \<and> throttledCount (throttleStats t1)
         = throttledCount (throttleStats t) + length (filter (\<lambda>r. r) (map fst rs))
     \<and> throttle b t1 a =
          (False, a\<lparr>throttled := Some (throttledCount (throttleStats t1))\<rparr>,
           t1\<lparr>throttleStats := \<lparr>attemptCount = 0, throttledCount = 0, lastAttempt = b\<rparr>\<rparr>)"
  using throttle_run_rolling [OF assms(1,2)] throttle_new_window [OF assms(3), of a] by blast

text \<open>
  The instance of the specification: a transmitter constructed at time 0 and 11 attempts
  100 ms apart. The first 10 are admitted, the 11th is rejected, and the report that
  opens the next window (at time 5000) is annotated with one throttled attempt.
\<close>

theorem throttle_rolling_window_witness:
  "rolling (lastAttempt (throttleStats (transmitter_new 0 True :: unit Transmitter)))
     (map fst (map (\<lambda>b. (b, \<lparr>throttled = None\<rparr>))
        [100, 200, 300, 400, 500, 600, 700, 800, 900, 1000, 1100]))
   \<and> throttle_run
        (map (\<lambda>b. (b, \<lparr>throttled = None\<rparr>))
           [100, 200, 300, 400, 500, 600, 700, 800, 900, 1000, 1100])
        (transmitter_new 0 True :: unit Transmitter)
      = (map (\<lambda>r. (r, \<lparr>throttled = None\<rparr>))
           [False, False, False, False, False, False, False, False, False, False, True],
         \<lparr>disabled = False,
          throttleStats = \<lparr>attemptCount = 11, throttledCount = 1, lastAttempt = 1100\<rparr>,
          sent = [], beacons = []\<rparr>)
   \<and> throttle 5000
        (\<lparr>disabled = False,
          throttleStats = \<lparr>attemptCount = 11, throttledCount = 1, lastAttempt = 1100\<rparr>,
          sent = [], beacons = []\<rparr> :: unit Transmitter)
        \<lparr>throttled = None\<rparr>
      = (False, \<lparr>throttled = Some 1\<rparr>,
         \<lparr>disabled = False,
          throttleStats = \<lparr>attemptCount = 0, throttledCount = 0, lastAttempt = 5000\<rparr>,
          sent = [], beacons = []\<rparr>)"
proof -
  let ?xs = "map (\<lambda>b. (b, \<lparr>throttled = None\<rparr>))
               [100, 200, 300, 400, 500, 600, 700, 800, 900, 1000, 1100 :: int]"
  let ?t = "transmitter_new 0 True :: unit Transmitter"
  let ?rs = "map (\<lambda>r. (r, \<lparr>throttled = None\<rparr>))
           [False, False, False, False, False, False, False, False, False, False, True]"
  let ?t1 = "\<lparr>disabled = False,
          throttleStats = \<lparr>attemptCount = 11, throttledCount = 1, lastAttempt = 1100\<rparr>,
          sent = [], beacons = []\<rparr> :: unit Transmitter"
  have a: "rolling (lastAttempt (throttleStats ?t)) (map fst ?xs)"
    by (simp add: transmitter_new_def)
  have b: "throttle_run ?xs ?t = (?rs, ?t1)"
    by (simp add: transmitter_new_def throttle_def Let_def)
  have c: "lastAttempt (throttleStats ?t1) + 1000 < 5000"
    by simp
  from throttle_rolling_window [OF a b c, of "\<lparr>throttled = None\<rparr>"] a b show ?thesis
    by simp
qed

text \<open>
  Claim C4 as stated fails when the burst itself opens the window. The transmitter is
  constructed at time 0 and stays idle; 11 attempts then come within 10 ms, from time
  5000 on. The first opens a new window and resets \<^verbatim>\<open>attemptCount\<close> to 0, so it is not
  counted: all 11 are admitted and none is counted as throttled.
\<close>

theorem throttle_burst_counterexample:
  "rolling 5000 [5001, 5002, 5003, 5004, 5005, 5006, 5007, 5008, 5009, 5010]
   \<and> throttle_run
        (map (\<lambda>b. (b, \<lparr>throttled = None\<rparr>))
           [5000, 5001, 5002, 5003, 5004, 5005, 5006, 5007, 5008, 5009, 5010])
        (transmitter_new 0 True :: unit Transmitter)
      = ((False, \<lparr>throttled = Some 0\<rparr>)
           # map (\<lambda>r. (r, \<lparr>throttled = None\<rparr>))
               [False, False, False, False, False, False, False, False, False, False],
         \<lparr>disabled = False,
          throttleStats = \<lparr>attemptCount = 10, throttledCount = 0, lastAttempt = 5010\<rparr>,
          sent = [], beacons = []\<rparr>)"
  by (simp add: transmitter_new_def throttle_def Let_def)

subsection \<open>Disabling the channel\<close>







section \<open>The claims about the aggregation entry point\<close>

subsection \<open>Errors that the agent has already reported\<close>

lemma index_from_sublist:
  "(index_from i s pat = - 1) = (\<not> sublist pat s) \<and> (index_from i s pat = - 1 \<or> int i \<le> index_from i s pat)"
proof (induction s arbitrary: i)
  case Nil
  then show ?case by simp
next
  case (Cons c cs)
  show ?case
  proof (cases "prefix pat (c # cs)")
    case True
    then show ?thesis by (simp add: sublist_Cons_right)
  next
    case False
    with Cons.IH [of "Suc i"] show ?thesis
      by (auto simp: sublist_Cons_right)
  qed
qed

lemma indexOf_sublist: "(indexOf s pat = - 1) = (\<not> sublist pat s)"
  using index_from_sublist [of 0 s pat] by (simp add: indexOf_def)

lemma indexOf_sublist': "(- 1 = indexOf s pat) = (\<not> sublist pat s)"
  using indexOf_sublist [of s pat] by auto

lemma isError_truthy: "isError h e \<Longrightarrow> truthy e"
  by (cases e) (simp_all add: isError_def isObject_def)

lemma normalize_error: "isError (mem st) e \<Longrightarrow> normalizeError st e f = e"
  by (simp add: normalizeError_def isError_truthy)

lemma onError_try_caught:
  assumes "get_prop (mem st) (normalizeError st e (bind_of f)) ''message'' = String msg"
    and "sublist ''Track Caught'' msg"
  shows "onError_try ev st d e f ctx = (st, None)"
  using assms by (simp add: onError_try_def Let_def indexOf_sublist')

lemma onError_caught:
  assumes "get_prop (mem st) (normalizeError st e (bind_of f)) ''message'' = String msg"
    and "sublist ''Track Caught'' msg"
  shows "onError ev st d e f ctx = (st, None)"
  using onError_try_caught [OF assms] by (simp add: onError_def)

lemma wrapError_fresh:
  assumes "\<not> truthy (get_prop h (or_else a (String (objectTag h a))) ''innerError'')"
  shows "wrapError ev h a =
     Object ''Error''
                [(''name'', String ''Error''),
                 (''message'', String (''Track Caught: '' @ to_string ev (or_else (get_prop h (or_else a (String (objectTag h a))) ''message'') (or_else a (String (objectTag h a)))))),
                 (''description'', String (''Track Caught: '' @ to_string ev (get_prop h (or_else a (String (objectTag h a))) ''description''))),
                 (''file'', get_prop h (or_else a (String (objectTag h a))) ''file''),
                 (''line'', or_else (get_prop h (or_else a (String (objectTag h a))) ''line'') (get_prop h (or_else a (String (objectTag h a))) ''lineNumber'')),
                 (''column'', or_else (get_prop h (or_else a (String (objectTag h a))) ''column'') (get_prop h (or_else a (String (objectTag h a))) ''columnNumber'')),
                 (''stack'', get_prop h (or_else a (String (objectTag h a))) ''stack''),
                 (''innerError'', a)]"
  using assms by (simp add: wrapError_def Let_def)

lemma sublist_prefix_append: "sublist p (p @ s)"
  by (metis sublist_appendI append_Nil)

text \<open>
  Claim C10. For every error value whose message is a string that contains
  \<^verbatim>\<open>Track Caught\<close>, \<^verbatim>\<open>onError\<close> returns and leaves the agent as it was: no report is
  assembled, the user hook is not called, nothing is sent, the log is not cleared. This
  holds whoever made the error, so a user error with such a message is dropped as well.
  The error that \<^verbatim>\<open>wrapError\<close> makes from a value without \<^verbatim>\<open>innerError\<close> is such an
  error value, so the report of a wrapper further out is dropped.
\<close>

theorem track_caught_dropped:
  "(isError (mem st) e \<and> get_prop (mem st) e ''message'' = String msg \<and> sublist ''Track Caught'' msg
      \<longrightarrow> onError ev st d e f ctx = (st, None))
   \<and> (\<not> truthy (get_prop (mem st) (or_else a (String (objectTag (mem st) a))) ''innerError'')
      \<longrightarrow> onError ev st d (wrapError ev1 (mem st) a) f ctx = (st, None))"
proof (intro conjI impI)
  assume A: "isError (mem st) e \<and> get_prop (mem st) e ''message'' = String msg \<and> sublist ''Track Caught'' msg"
  then have "normalizeError st e (bind_of f) = e"
    by (simp add: normalize_error)
  with A show "onError ev st d e f ctx = (st, None)"
    using onError_caught [of st e f msg ev d ctx] by simp
next
  assume B: "\<not> truthy (get_prop (mem st) (or_else a (String (objectTag (mem st) a))) ''innerError'')"
  let ?w = "wrapError ev1 (mem st) a"
  let ?m = "''Track Caught: '' @ to_string ev1 (or_else (get_prop (mem st) (or_else a (String (objectTag (mem st) a))) ''message'') (or_else a (String (objectTag (mem st) a))))"
  have E: "isError (mem st) ?w"
    by (simp add: wrapError_fresh [OF B] isError_def isObject_def objectTag_def class_of_def)
  have M: "get_prop (mem st) ?w ''message'' = String ?m"
    by (simp add: wrapError_fresh [OF B] get_prop_def lookup_def)
  have S: "sublist ''Track Caught'' ?m"
    using sublist_prefix_append [of "''Track Caught''" "'': '' @ to_string ev1 (or_else (get_prop (mem st) (or_else a (String (objectTag (mem st) a))) ''message'') (or_else a (String (objectTag (mem st) a))))"]
    by simp
  from E have "normalizeError st ?w (bind_of f) = ?w"
    by (simp add: normalize_error)
  with M S show "onError ev st d ?w f ctx = (st, None)"
    using onError_caught [of st ?w f ?m ev d ctx] by simp
qed

theorem track_caught_dropped_witness:
  "isError (mem (installed (defaults (\<lambda>v. ''value'')) 0 (String ''token'')))
      (Object ''Error'' [(''name'', String ''Error''), (''message'', String ''Track Caught: boom'')])
   \<and> sublist ''Track Caught'' ''Track Caught: boom''
   \<and> onError (browser 5) (installed (defaults (\<lambda>v. ''value'')) 0 (String ''token'')) ''catch''
        (Object ''Error'' [(''name'', String ''Error''), (''message'', String ''Track Caught: boom'')])
        None Undefined
      = (installed (defaults (\<lambda>v. ''value'')) 0 (String ''token''), None)
   \<and> onError (browser 5) (installed (defaults (\<lambda>v. ''value'')) 0 (String ''token'')) ''catch''
        (wrapError (browser 4) (mem (installed (defaults (\<lambda>v. ''value'')) 0 (String ''token'')))
           (Object ''Error'' [(''name'', String ''Error''), (''message'', String ''boom'')]))
        None Undefined
      = (installed (defaults (\<lambda>v. ''value'')) 0 (String ''token''), None)"
proof -
  let ?st = "installed (defaults (\<lambda>v. ''value'')) 0 (String ''token'')"
  let ?e = "Object ''Error'' [(''name'', String ''Error''), (''message'', String ''Track Caught: boom'')]"
  let ?a = "Object ''Error'' [(''name'', String ''Error''), (''message'', String ''boom'')]"
  have a: "isError (mem ?st) ?e"
    by (simp add: isError_def isObject_def objectTag_def class_of_def)
  have b: "get_prop (mem ?st) ?e ''message'' = String ''Track Caught: boom''"
    by (simp add: get_prop_def lookup_def)
  have c: "sublist ''Track Caught'' ''Track Caught: boom''"
    using sublist_prefix_append [of "''Track Caught''" "'': boom''"] by simp
  have d: "\<not> truthy (get_prop (mem ?st) (or_else ?a (String (objectTag (mem ?st) ?a))) ''innerError'')"
    by (simp add: or_else_def get_prop_def lookup_def)
  from track_caught_dropped [of ?st ?e "''Track Caught: boom''" "browser 5" "''catch''" None Undefined
      ?a "browser 4"] a b c d
  show ?thesis by blast
qed

subsection \<open>The user hook\<close>

lemma throttle_fields:
  "disabled (snd (snd (throttle b t a))) = disabled t"
  "sent (snd (snd (throttle b t a))) = sent t"
  "beacons (snd (snd (throttle b t a))) = beacons t"
  by (simp_all add: throttle_def Let_def)

lemma sendTrackerFault_sent: "sent (sendTrackerFault ev t a) = sent t"
  using throttle_fields(2) [of "now ev" t a]
  by (cases "throttle (now ev) t a") (auto simp: sendTrackerFault_def split: bool.splits)

lemma onFault_keeps:
  "hookCalls (fst (onFault ev st m)) = hookCalls st"
  "lastFingerprint (fst (onFault ev st m)) = lastFingerprint st"
  "sent (transmitter (fst (onFault ev st m))) = sent (transmitter st)"
  "mem (fst (onFault ev st m)) = mem st"
  by (simp_all add: onFault_def Let_def sendTrackerFault_sent split: jsval.splits)

lemma send_phase_keeps:
  "hookCalls (fst (send_phase ev st hp)) = hookCalls st"
  "lastFingerprint (fst (send_phase ev st hp)) = lastFingerprint st"
  by (simp_all add: send_phase_def Let_def split: sum.splits prod.splits sending.splits)

lemma dedupe_phase_hookCalls: "hookCalls (fst (dedupe_phase ev st hp)) = hookCalls st"
  by (simp add: dedupe_phase_def send_phase_keeps)

lemma dedupe_phase_duplicate:
  "dedupe (current st) \<Longrightarrow> lastFingerprint st = Some (fingerprint ev hp) \<Longrightarrow>
   dedupe_phase ev st hp = (st, None)"
  by (simp add: dedupe_phase_def)

lemma hook_phase_hookCalls:
  "hookCalls (fst (hook_phase ev st hp e f)) =
     (if force f then hookCalls st else hookCalls st @ [(hp, e)])"
  by (simp add: hook_phase_def Let_def dedupe_phase_hookCalls split: prod.splits outcome.splits)

lemma onError_reaches_hook:
  assumes "hasInstalled st \<and> hasEnabled st \<and> browserSupported ev"
    and "get_prop (mem st) (normalizeError st e (bind_of f)) ''message'' = String msg"
    and "\<not> sublist ''Track Caught'' msg"
    and "\<not> (reporting st \<and> sublist ''Script error'' msg)"
    and "assemble ev st d (normalizeError st e (bind_of f)) msg (bind_of f) ctx = Inr (h1, hp)"
  shows "onError ev st d e f ctx =
     (case hook_phase ev (st\<lparr>mem := h1\<rparr>) hp (normalizeError st e (bind_of f)) (bind_of f) of
        (st1, None) \<Rightarrow> (st1, None) | (st1, Some m) \<Rightarrow> onFault ev st1 m)"
proof -
  from assms(3) have A: "indexOf msg ''Track Caught'' = - 1"
    by (simp add: indexOf_sublist)
  from assms(4) have B: "reporting st \<longrightarrow> indexOf msg ''Script error'' = - 1"
    by (simp add: indexOf_sublist)
  have "onError_try ev st d e f ctx
          = hook_phase ev (st\<lparr>mem := h1\<rparr>) hp (normalizeError st e (bind_of f)) (bind_of f)"
    using assms(2,5) B by (auto simp: onError_try_def Let_def A)
  with assms(1) show ?thesis by (simp add: onError_def)
qed

text \<open>
  Claim C7, as the code has it. Take a call of \<^verbatim>\<open>onError\<close> that gets as far as
  assembling a report: the agent is installed and enabled, the message is a string
  without \<^verbatim>\<open>Track Caught\<close>, the guard flag does not drop it, and the snapshots of the
  log succeed. If the call is not forced, the user hook is invoked exactly once, with
  the assembled report and the error, and this happens before the dedup gate is
  consulted; a forced call does not invoke the hook. When the hook returns a falsy value,
  \<^verbatim>\<open>onError\<close> returns at once: nothing is sent, the fingerprint is not updated, the log
  is not cleared. When the hook returns a truthy value and the report is a duplicate of
  the last fingerprint, the report is dropped after the hook has run.
\<close>

theorem hook_before_dedupe:
  assumes "hasInstalled st \<and> hasEnabled st \<and> browserSupported ev"
    and "get_prop (mem st) (normalizeError st e (bind_of f)) ''message'' = String msg"
    and "\<not> sublist ''Track Caught'' msg"
    and "\<not> (reporting st \<and> sublist ''Script error'' msg)"
    and "assemble ev st d (normalizeError st e (bind_of f)) msg (bind_of f) ctx = Inr (h1, hp)"
    and "config_onError (current st) hp (normalizeError st e (bind_of f)) = (hp1, r)"
  shows "hookCalls (fst (onError ev st d e f ctx))
           = (if force (bind_of f) then hookCalls st
              else hookCalls st @ [(hp, normalizeError st e (bind_of f))])
     \<and> (\<not> force (bind_of f) \<and> (\<exists>v. r = Return v \<and> \<not> truthy v) \<longrightarrow>
          onError ev st d e f ctx
            = (st\<lparr>mem := h1, hookCalls := hookCalls st @ [(hp, normalizeError st e (bind_of f))]\<rparr>, None))
     \<and> (\<not> force (bind_of f) \<and> (\<exists>v. r = Return v \<and> truthy v) \<and> dedupe (current st)
          \<and> lastFingerprint st = Some (fingerprint ev hp1) \<longrightarrow>
          onError ev st d e f ctx
            = (st\<lparr>mem := h1, hookCalls := hookCalls st @ [(hp, normalizeError st e (bind_of f))]\<rparr>, None))"
proof -
  let ?e = "normalizeError st e (bind_of f)"
  let ?st1 = "st\<lparr>mem := h1\<rparr>"
  let ?calls = "if force (bind_of f) then hookCalls st else hookCalls st @ [(hp, ?e)]"
  note R = onError_reaches_hook [OF assms(1-5)]
  have H: "hookCalls (fst (hook_phase ev ?st1 hp ?e (bind_of f))) = ?calls"
    by (simp add: hook_phase_hookCalls)
  have C1: "hookCalls (fst (onError ev st d e f ctx)) = ?calls"
  proof (cases "hook_phase ev ?st1 hp ?e (bind_of f)")
    case (Pair st2 x)
    with H have "hookCalls st2 = ?calls" by simp
    with Pair R show ?thesis
      by (cases x) (simp_all add: onFault_keeps)
  qed
  have C2: "onError ev st d e f ctx = (st\<lparr>mem := h1, hookCalls := hookCalls st @ [(hp, ?e)]\<rparr>, None)"
    if "\<not> force (bind_of f) \<and> (\<exists>v. r = Return v \<and> \<not> truthy v)"
  proof -
    from that obtain v where "r = Return v" "\<not> truthy v" by blast
    with assms(6) that have "hook_phase ev ?st1 hp ?e (bind_of f)
        = (st\<lparr>mem := h1, hookCalls := hookCalls st @ [(hp, ?e)]\<rparr>, None)"
      by (simp add: hook_phase_def Let_def)
    with R show ?thesis by simp
  qed
  have C3: "onError ev st d e f ctx = (st\<lparr>mem := h1, hookCalls := hookCalls st @ [(hp, ?e)]\<rparr>, None)"
    if "\<not> force (bind_of f) \<and> (\<exists>v. r = Return v \<and> truthy v) \<and> dedupe (current st)
          \<and> lastFingerprint st = Some (fingerprint ev hp1)"
  proof -
    from that obtain v where "r = Return v" "truthy v" by blast
    with assms(6) that have "hook_phase ev ?st1 hp ?e (bind_of f)
        = (st\<lparr>mem := h1, hookCalls := hookCalls st @ [(hp, ?e)]\<rparr>, None)"
      by (simp add: hook_phase_def Let_def dedupe_phase_duplicate)
    with R show ?thesis by simp
  qed
  from C1 C2 C3 show ?thesis by blast
qed

text \<open>The definitions that the evaluation of a concrete call of \<^verbatim>\<open>onError\<close> unfolds.\<close>

lemmas eval_defs = onError_def onError_try_def installed_def defaults_def browser_def bind_of_def
    default_bind_def normalizeError_def isError_def isObject_def isString_def objectTag_def class_of_def
    get_prop_def lookup_def indexOf_def assemble_def log_all_def log_entries_def log_new_def
    alloc_def cell_at_def store_def or_else_def hook_phase_def dedupe_phase_def fingerprint_def
    to_string_def send_phase_def cap_console_def cap_loop.simps truncate_message_def
    over_budget_def message_length_def
    log_clear_def sendError_def throttle_def transmitter_new_def getCORSRequest_def
    testCrossdomainXhr_def stringify_def array_view_def Let_def

text \<open>
  An instance: an installed agent with the default configuration whose last fingerprint
  is that of the error \<^verbatim>\<open>boom\<close>. The error is reported again: the hook is called with
  the new report, and the report is dropped as a duplicate.
\<close>

theorem hook_before_dedupe_witness:
  "onError (browser 6)
     ((installed (defaults (\<lambda>v. ''value'')) 0 (String ''token''))\<lparr>lastFingerprint := Some ''boomat f''\<rparr>)
     ''window''
     (Object ''Error'' [(''name'', String ''Error''), (''message'', String ''boom''), (''stack'', String ''at f'')])
     None Undefined
   = ((installed (defaults (\<lambda>v. ''value'')) 0 (String ''token''))
        \<lparr>lastFingerprint := Some ''boomat f'',
         mem := [Entries [], Values [], Values [], Values [], Values []],
         hookCalls :=
           [(\<lparr>throttled = None, agentPlatform = ''browser'',
              payload_bindStack = Null, payload_bindTime = Null,
              column = Undefined, console = 1, entry_kind = ''window'',
              payload_file = Undefined, line = Undefined,
              message = ''boom'', nav = 2, network = 3,
              stack = String ''at f'',
              timestamp = ''2020-01-01T00:00:00.000Z'', visitor = 4,
              collaborators = Undefined\<rparr>,
             Object ''Error'' [(''name'', String ''Error''), (''message'', String ''boom''),
                               (''stack'', String ''at f'')])]\<rparr>,
      None)"
proof -
  let ?st = "(installed (defaults (\<lambda>v. ''value'')) 0 (String ''token''))\<lparr>lastFingerprint := Some ''boomat f''\<rparr>"
  let ?e = "Object ''Error'' [(''name'', String ''Error''), (''message'', String ''boom''), (''stack'', String ''at f'')]"
  let ?hp = "\<lparr>throttled = None, agentPlatform = ''browser'',
              payload_bindStack = Null, payload_bindTime = Null,
              column = Undefined, console = 1, entry_kind = ''window'',
              payload_file = Undefined, line = Undefined,
              message = ''boom'', nav = 2, network = 3,
              stack = String ''at f'',
              timestamp = ''2020-01-01T00:00:00.000Z'', visitor = 4,
              collaborators = Undefined\<rparr>"
  let ?h1 = "[Entries [], Values [], Values [], Values [], Values []]"
  have n: "normalizeError ?st ?e (bind_of None) = ?e"
    by (simp add: normalizeError_def isError_def isObject_def objectTag_def class_of_def)
  have a1: "hasInstalled ?st \<and> hasEnabled ?st \<and> browserSupported (browser 6)"
    by (simp add: installed_def browser_def)
  have a2: "get_prop (mem ?st) (normalizeError ?st ?e (bind_of None)) ''message'' = String ''boom''"
    by (simp add: n get_prop_def lookup_def)
  have a3: "\<not> sublist ''Track Caught'' ''boom''"
    by (simp add: sublist_Cons_right)
  have a4: "\<not> (reporting ?st \<and> sublist ''Script error'' ''boom'')"
    by (simp add: installed_def)
  have a5: "assemble (browser 6) ?st ''window'' (normalizeError ?st ?e (bind_of None)) ''boom'' (bind_of None)
              Undefined = Inr (?h1, ?hp)"
    by (simp add: n eval_defs)
  have a6: "config_onError (current ?st) ?hp (normalizeError ?st ?e (bind_of None)) = (?hp, Return (Boolean True))"
    by (simp add: installed_def defaults_def)
  have a7: "\<not> force (bind_of None) \<and> (\<exists>v. Return (Boolean True) = Return v \<and> truthy v)
            \<and> dedupe (current ?st) \<and> lastFingerprint ?st = Some (fingerprint (browser 6) ?hp)"
    by (simp add: bind_of_def default_bind_def installed_def defaults_def fingerprint_def to_string_def)
  from hook_before_dedupe [OF a1 a2 a3 a4 a5 a6] a7
  have X: "onError (browser 6) ?st ''window'' ?e None Undefined
      = (?st\<lparr>mem := ?h1, hookCalls := hookCalls ?st @ [(?hp, normalizeError ?st ?e (bind_of None))]\<rparr>, None)"
    by blast
  have hc: "hookCalls ?st = []" by (simp add: installed_def)
  show ?thesis unfolding X n hc by simp
qed

text \<open>
  Claim C7 as stated fails: the hook does not come after dedup. The same error is
  reported twice in a row to a newly installed agent. The second report is rejected by
  the dedup gate (one report has been sent), but the hook has been invoked for both.
\<close>

theorem hook_runs_on_duplicate_counterexample:
  "length (hookCalls (fst (onError (browser 6)
      (fst (onError (browser 5) (installed (defaults (\<lambda>v. ''value'')) 0 (String ''token'')) ''window''
             (Object ''Error'' [(''name'', String ''Error''), (''message'', String ''boom''),
                                (''stack'', String ''at f'')])
             None Undefined))
      ''window''
      (Object ''Error'' [(''name'', String ''Error''), (''message'', String ''boom''),
                         (''stack'', String ''at f'')])
      None Undefined))) = 2
   \<and> length (sent (transmitter (fst (onError (browser 6)
      (fst (onError (browser 5) (installed (defaults (\<lambda>v. ''value'')) 0 (String ''token'')) ''window''
             (Object ''Error'' [(''name'', String ''Error''), (''message'', String ''boom''),
                                (''stack'', String ''at f'')])
             None Undefined))
      ''window''
      (Object ''Error'' [(''name'', String ''Error''), (''message'', String ''boom''),
                         (''stack'', String ''at f'')])
      None Undefined)))) = 1"
  by (simp add: eval_defs)

subsection \<open>Suppression of consecutive duplicates\<close>

lemma isString_Ref: "\<not> isString h (Ref a)"
  by (simp add: isString_def objectTag_def class_of_def split: option.splits cell.splits)

lemma isString_heap: "isString h v = isString h1 v"
  by (cases v) (simp_all add: isString_Ref, simp_all add: isString_def objectTag_def class_of_def isObject_def)

lemma isError_Object_heap: "isError h (Object c ps) = isError h1 (Object c ps)"
  using isString_heap [of h "lookup ps ''name''" h1] isString_heap [of h "lookup ps ''message''" h1]
  by (simp add: isError_def isObject_def objectTag_def class_of_def get_prop_def)

lemma get_prop_Object: "get_prop h (Object c ps) k = lookup ps k"
  by (simp add: get_prop_def)

lemma log_entries_append: "log_entries h l = Inr xs \<Longrightarrow> log_entries (h @ cs) l = Inr xs"
  by (simp add: log_entries_Inr_iff nth_append)

lemma assemble_ok:
  assumes "log_entries (mem st) (eventLog st) = Inr xs"
  shows "\<exists>h4 hp. assemble ev st d e msg f ctx = Inr (h4, hp) \<and> message hp = msg
          \<and> stack hp = get_prop (mem st) e ''stack'' \<and> log_entries h4 (eventLog st) = Inr xs"
proof -
  let ?h1 = "mem st @ [Values (map val (filter (\<lambda>d. category d = ''c'') xs))]"
  let ?h2 = "?h1 @ [Values (map val (filter (\<lambda>d. category d = ''h'') xs))]"
  let ?h3 = "?h2 @ [Values (map val (filter (\<lambda>d. category d = ''n'') xs))]"
  let ?h4 = "?h3 @ [Values (map val (filter (\<lambda>d. category d = ''v'') xs))]"
  note E0 = assms
  note E1 = log_entries_append [OF E0, of "[Values (map val (filter (\<lambda>d. category d = ''c'') xs))]"]
  note E2 = log_entries_append [OF E1, of "[Values (map val (filter (\<lambda>d. category d = ''h'') xs))]"]
  note E3 = log_entries_append [OF E2, of "[Values (map val (filter (\<lambda>d. category d = ''n'') xs))]"]
  note E4 = log_entries_append [OF E3, of "[Values (map val (filter (\<lambda>d. category d = ''v'') xs))]"]
  have A1: "log_all (mem st) (eventLog st) ''c'' = Inr (?h1, length (mem st))"
    using log_all_result [OF E0] by simp
  have A2: "log_all ?h1 (eventLog st) ''h'' = Inr (?h2, length ?h1)"
    using log_all_result [OF E1] by simp
  have A3: "log_all ?h2 (eventLog st) ''n'' = Inr (?h3, length ?h2)"
    using log_all_result [OF E2] by simp
  have A4: "log_all ?h3 (eventLog st) ''v'' = Inr (?h4, length ?h3)"
    using log_all_result [OF E3] by simp
  show ?thesis
    unfolding assemble_def
    apply (simp only: A1 sum.case prod.case)
    apply (simp only: A2 sum.case prod.case)
    apply (simp only: A3 sum.case prod.case)
    apply (simp only: A4 sum.case prod.case)
    using E4 apply simp
    done
qed

lemma cap_loop_Entries:
  "cell_at h p = Some (Entries xs) \<Longrightarrow> cell_at (cap_loop ev h vs b) p = Some (Entries xs)"
proof (induction ev h vs b rule: cap_loop.induct)
  case (1 ev h vs b)
  show ?case
  proof (cases "over_budget h vs \<and> b < length vs")
    case True
    from 1(1) [OF True] set_prop_Entries [OF 1(2)] True show ?thesis
      by (subst cap_loop.simps) (simp add: truncate_message_def)
  next
    case False
    with 1(2) show ?thesis by (subst cap_loop.simps) auto
  qed
qed

lemma cap_console_entries:
  "log_entries h l = Inr xs \<Longrightarrow> log_entries (cap_console ev h c) l = Inr xs"
  by (simp add: log_entries_cell cap_console_def cap_loop_Entries split: option.splits cell.splits)

lemma sendError_admits:
  assumes "admits ev t"
  shows "\<exists>t1 a1. sendError str ev t a b = (t1, a1, Done) \<and> sent t1 = sent t @ [(str a1, b)]"
proof -
  obtain r a1 t1 where T: "throttle (now ev) t a = (r, a1, t1)" by (cases "throttle (now ev) t a")
  from assms have "\<not> r" using T by (auto simp: admits_def throttle_def Let_def split: if_splits)
  moreover from throttle_fields(2) [of "now ev" t a] T have "sent t1 = sent t" by simp
  ultimately show ?thesis using assms T
    by (auto simp: sendError_def admits_def getCORSRequest_def testCrossdomainXhr_def split: if_splits)
qed

lemma assemble_fields:
  "assemble ev st d e msg f ctx = Inr (h, hp) \<Longrightarrow>
     message hp = msg \<and> stack hp = get_prop (mem st) e ''stack''"
  by (auto simp: assemble_def split: sum.splits prod.splits)

lemma onFault_setup: "same_setup st (fst (onFault ev st m))"
  by (simp add: onFault_def Let_def same_setup_def split: jsval.splits)

lemma send_phase_setup: "same_setup st (fst (send_phase ev st hp))"
  by (simp add: send_phase_def Let_def same_setup_def split: sum.splits prod.splits sending.splits)

lemma same_setup_trans: "same_setup a b \<Longrightarrow> same_setup b c \<Longrightarrow> same_setup a c"
  by (simp add: same_setup_def)

lemma dedupe_phase_setup: "same_setup st (fst (dedupe_phase ev st hp))"
  using send_phase_setup [of st ev hp]
    send_phase_setup [of "st\<lparr>lastFingerprint := Some (fingerprint ev hp)\<rparr>" ev hp]
  by (simp add: dedupe_phase_def same_setup_def)

lemma hook_phase_setup: "same_setup st (fst (hook_phase ev st hp e f))"
proof -
  have A: "same_setup st (fst (dedupe_phase ev st1 hp1))" if "same_setup st st1" for st1 hp1
    using that dedupe_phase_setup [of st1 ev hp1] by (rule same_setup_trans)
  show ?thesis
    by (auto simp: hook_phase_def Let_def split: prod.splits outcome.splits intro!: A)
       (simp_all add: same_setup_def)
qed

lemma send_phase_admits:
  assumes "log_entries (mem st) (eventLog st) = Inr xs" and "admits ev (transmitter st)"
  shows "\<exists>st1 w. send_phase ev st hp = (st1, None)
           \<and> sent (transmitter st1) = sent (transmitter st) @ [w]
           \<and> lastFingerprint st1 = lastFingerprint st"
proof -
  let ?h1 = "cap_console ev (mem st) (console hp)"
  from cap_console_entries [OF assms(1)] have E: "log_entries ?h1 (eventLog st) = Inr xs" .
  then have C: "log_clear ?h1 (eventLog st) = Inr (store ?h1 (appender (eventLog st)) (Entries []))"
    by (simp add: log_clear_def)
  let ?h2 = "store ?h1 (appender (eventLog st)) (Entries [])"
  from sendError_admits [OF assms(2), of "stringify ?h2" hp "customer_token st"]
  obtain t1 a1 where S: "sendError (stringify ?h2) ev (transmitter st) hp (customer_token st) = (t1, a1, Done)"
    and T: "sent t1 = sent (transmitter st) @ [(stringify ?h2 a1, customer_token st)]"
    by blast
  show ?thesis
    by (simp add: send_phase_def Let_def C S T)
qed

lemma onError_first:
  assumes "hasInstalled st \<and> hasEnabled st \<and> browserSupported ev"
    and "dedupe (current st)"
    and "\<forall>p x. config_onError (current st) p x = (p, Return (Boolean True))"
    and "isError (mem st) (Object c ps)"
    and "lookup ps ''message'' = String msg"
    and "\<not> sublist ''Track Caught'' msg"
    and "\<not> reporting st"
    and "lastFingerprint st \<noteq> Some (take 10000 (msg @ to_string ev (lookup ps ''stack'')))"
    and "log_entries (mem st) (eventLog st) = Inr xs"
    and "admits ev (transmitter st)"
  shows "\<exists>st1 w. onError ev st d (Object c ps) f ctx = (st1, None)
           \<and> sent (transmitter st1) = sent (transmitter st) @ [w]
           \<and> lastFingerprint st1 = Some (take 10000 (msg @ to_string ev (lookup ps ''stack'')))"
proof -
  let ?e = "Object c ps"
  let ?k = "take 10000 (msg @ to_string ev (lookup ps ''stack''))"
  have N: "normalizeError st ?e (bind_of f) = ?e"
    using assms(4) by (simp add: normalize_error)
  have M: "get_prop (mem st) (normalizeError st ?e (bind_of f)) ''message'' = String msg"
    using assms(5) by (simp add: N get_prop_Object)
  from assemble_ok [OF assms(9), of ev d ?e msg "bind_of f" ctx] obtain h4 hp where
    A: "assemble ev st d ?e msg (bind_of f) ctx = Inr (h4, hp)" and
    Am: "message hp = msg" and As: "stack hp = lookup ps ''stack''" and
    E4: "log_entries h4 (eventLog st) = Inr xs"
    by (auto simp: get_prop_Object)
  have F: "fingerprint ev hp = ?k"
    by (simp add: fingerprint_def Am As)
  from A have A': "assemble ev st d (normalizeError st ?e (bind_of f)) msg (bind_of f) ctx = Inr (h4, hp)"
    by (simp add: N)
  from assms(7) have G: "\<not> (reporting st \<and> sublist ''Script error'' msg)" by simp
  note R = onError_reaches_hook [OF assms(1) M assms(6) G A']
  have D: "\<exists>st1 w. dedupe_phase ev st0 hp = (st1, None)
           \<and> sent (transmitter st1) = sent (transmitter st) @ [w]
           \<and> lastFingerprint st1 = Some ?k"
    if "mem st0 = h4" "eventLog st0 = eventLog st" "transmitter st0 = transmitter st"
       "lastFingerprint st0 = lastFingerprint st" "current st0 = current st" for st0
  proof -
    let ?s = "st0\<lparr>lastFingerprint := Some ?k\<rparr>"
    have "log_entries (mem ?s) (eventLog ?s) = Inr xs" "admits ev (transmitter ?s)"
      using that E4 assms(10) by simp_all
    from send_phase_admits [OF this, of hp] that assms(2,8) show ?thesis
      by (auto simp: dedupe_phase_def F)
  qed
  have "\<exists>st1 w. hook_phase ev (st\<lparr>mem := h4\<rparr>) hp (normalizeError st ?e (bind_of f)) (bind_of f) = (st1, None)
           \<and> sent (transmitter st1) = sent (transmitter st) @ [w]
           \<and> lastFingerprint st1 = Some ?k"
  proof (cases "force (bind_of f)")
    case True
    with D [of "st\<lparr>mem := h4\<rparr>"] show ?thesis by (simp add: hook_phase_def)
  next
    case False
    with D [of "st\<lparr>mem := h4, hookCalls := hookCalls st @ [(hp, normalizeError st ?e (bind_of f))]\<rparr>"]
      assms(3) show ?thesis
      by (simp add: hook_phase_def Let_def)
  qed
  with R show ?thesis by auto
qed

lemma onError_duplicate:
  assumes "dedupe (current st)"
    and "\<forall>p x. config_onError (current st) p x = (p, Return (Boolean True))"
    and "isError (mem st) (Object c ps)"
    and "lookup ps ''message'' = String msg"
    and "lastFingerprint st = Some (take 10000 (msg @ to_string ev (lookup ps ''stack'')))"
  shows "sent (transmitter (fst (onError ev st d (Object c ps) f ctx))) = sent (transmitter st)"
proof -
  let ?e = "Object c ps"
  let ?k = "take 10000 (msg @ to_string ev (lookup ps ''stack''))"
  have N: "normalizeError st ?e (bind_of f) = ?e"
    using assms(3) by (simp add: normalize_error)
  have H: "sent (transmitter (fst (hook_phase ev (st\<lparr>mem := h1\<rparr>) hp ?e (bind_of f)))) = sent (transmitter st)
         \<and> snd (hook_phase ev (st\<lparr>mem := h1\<rparr>) hp ?e (bind_of f)) = None"
    if A: "assemble ev st d ?e msg (bind_of f) ctx = Inr (h1, hp)" for h1 hp
  proof -
    from assemble_fields [OF A] have "fingerprint ev hp = ?k"
      by (simp add: fingerprint_def get_prop_Object)
    with assms(1,2,5) show ?thesis
      by (simp add: hook_phase_def Let_def dedupe_phase_def)
  qed
  have T: "sent (transmitter (fst (onError_try ev st d ?e f ctx))) = sent (transmitter st)
        \<and> (snd (onError_try ev st d ?e f ctx) \<noteq> None \<longrightarrow> fst (onError_try ev st d ?e f ctx) = st)"
  proof (cases "assemble ev st d ?e msg (bind_of f) ctx")
    case (Inl x)
    then show ?thesis
      using assms(4) by (simp add: onError_try_def Let_def N get_prop_Object)
  next
    case (Inr r)
    obtain h1 hp where r: "r = (h1, hp)" by (cases r)
    from H [of h1 hp] Inr r show ?thesis
      using assms(4) by (simp add: onError_try_def Let_def N get_prop_Object)
  qed
  show ?thesis
  proof (cases "onError_try ev st d ?e f ctx")
    case (Pair st1 x)
    with T show ?thesis
      by (cases x) (auto simp: onError_def onFault_keeps)
  qed
qed

lemma onError_try_setup: "same_setup st (fst (onError_try ev st d e f ctx))"
proof -
  have A: "same_setup st (fst (hook_phase ev (st\<lparr>mem := h1\<rparr>) hp e1 f1))" for h1 hp e1 f1
    using hook_phase_setup [of "st\<lparr>mem := h1\<rparr>" ev hp e1 f1] by (simp add: same_setup_def)
  show ?thesis
    by (auto simp: onError_try_def Let_def A split: jsval.splits sum.splits)
       (simp_all add: same_setup_def)
qed

lemma onError_setup: "same_setup st (fst (onError ev st d e f ctx))"
proof (cases "onError_try ev st d e f ctx")
  case (Pair st1 x)
  from onError_try_setup [of st ev d e f ctx] Pair have S: "same_setup st st1" by simp
  show ?thesis
  proof (cases x)
    case None
    with Pair S show ?thesis by (simp add: onError_def same_setup_def)
  next
    case (Some m)
    from same_setup_trans [OF S onFault_setup [of st1 ev m]] Pair Some show ?thesis
      by (simp add: onError_def same_setup_def)
  qed
qed

lemma to_string_cong: "objectToString ev2 = objectToString ev1 \<Longrightarrow> to_string ev2 v = to_string ev1 v"
  by (simp add: to_string_def split: jsval.splits)

text \<open>
  Claim C5. With \<^verbatim>\<open>dedupe\<close> configured, the fingerprint of a report is the first 10000
  characters of \<^verbatim>\<open>message + stack\<close>. A report whose fingerprint equals the remembered
  one is rejected: the agent is left as it was and nothing is sent. Any other report
  passes the gate and its fingerprint replaces the remembered one, so only the last
  accepted fingerprint is kept. Consequently, when an installed agent with the default
  hook, whose transmitter will issue the report, is given an error that is not a
  duplicate and then the same error again, the first call sends exactly one report and
  the second call sends nothing.
\<close>

theorem dedupe_consecutive:
  "fingerprint ev hp = take 10000 (message hp @ to_string ev (stack hp))
   \<and> (dedupe (current sa) \<and> lastFingerprint sa = Some (fingerprint ev hp) \<longrightarrow>
         dedupe_phase ev sa hp = (sa, None))
   \<and> (dedupe (current sb) \<and> lastFingerprint sb \<noteq> Some (fingerprint ev hp) \<longrightarrow>
         dedupe_phase ev sb hp = send_phase ev (sb\<lparr>lastFingerprint := Some (fingerprint ev hp)\<rparr>) hp
         \<and> lastFingerprint (fst (dedupe_phase ev sb hp)) = Some (fingerprint ev hp))
   \<and> (hasInstalled st \<and> hasEnabled st \<and> browserSupported ev1
        \<and> dedupe (current st)
        \<and> (\<forall>p x. config_onError (current st) p x = (p, Return (Boolean True)))
        \<and> isError (mem st) (Object c ps)
        \<and> lookup ps ''message'' = String msg
        \<and> \<not> sublist ''Track Caught'' msg
        \<and> \<not> reporting st
        \<and> lastFingerprint st \<noteq> Some (take 10000 (msg @ to_string ev1 (lookup ps ''stack'')))
        \<and> log_entries (mem st) (eventLog st) = Inr xs
        \<and> admits ev1 (transmitter st)
        \<and> objectToString ev2 = objectToString ev1 \<longrightarrow>
         (\<exists>w. sent (transmitter (fst (onError ev1 st d (Object c ps) f ctx))) = sent (transmitter st) @ [w])
         \<and> sent (transmitter (fst (onError ev2 (fst (onError ev1 st d (Object c ps) f ctx))
                                       d2 (Object c ps) f2 ctx2)))
             = sent (transmitter (fst (onError ev1 st d (Object c ps) f ctx))))"
proof (intro conjI impI)
  show "fingerprint ev hp = take 10000 (message hp @ to_string ev (stack hp))"
    by (simp add: fingerprint_def)
next
  assume "dedupe (current sa) \<and> lastFingerprint sa = Some (fingerprint ev hp)"
  then show "dedupe_phase ev sa hp = (sa, None)" by (simp add: dedupe_phase_duplicate)
next
  assume A: "dedupe (current sb) \<and> lastFingerprint sb \<noteq> Some (fingerprint ev hp)"
  then show "dedupe_phase ev sb hp = send_phase ev (sb\<lparr>lastFingerprint := Some (fingerprint ev hp)\<rparr>) hp"
    by (simp add: dedupe_phase_def)
  with A show "lastFingerprint (fst (dedupe_phase ev sb hp)) = Some (fingerprint ev hp)"
    by (simp add: send_phase_keeps)
next
  assume H: "hasInstalled st \<and> hasEnabled st \<and> browserSupported ev1
        \<and> dedupe (current st)
        \<and> (\<forall>p x. config_onError (current st) p x = (p, Return (Boolean True)))
        \<and> isError (mem st) (Object c ps)
        \<and> lookup ps ''message'' = String msg
        \<and> \<not> sublist ''Track Caught'' msg
        \<and> \<not> reporting st
        \<and> lastFingerprint st \<noteq> Some (take 10000 (msg @ to_string ev1 (lookup ps ''stack'')))
        \<and> log_entries (mem st) (eventLog st) = Inr xs
        \<and> admits ev1 (transmitter st)
        \<and> objectToString ev2 = objectToString ev1"
  let ?k = "take 10000 (msg @ to_string ev1 (lookup ps ''stack''))"
  let ?st1 = "fst (onError ev1 st d (Object c ps) f ctx)"
  from H have h: "hasInstalled st \<and> hasEnabled st \<and> browserSupported ev1" "dedupe (current st)"
    "\<forall>p x. config_onError (current st) p x = (p, Return (Boolean True))"
    "isError (mem st) (Object c ps)" "lookup ps ''message'' = String msg"
    "\<not> sublist ''Track Caught'' msg" "\<not> reporting st" "lastFingerprint st \<noteq> Some ?k"
    "log_entries (mem st) (eventLog st) = Inr xs" "admits ev1 (transmitter st)"
    "objectToString ev2 = objectToString ev1"
    by blast+
  from onError_first [OF h(1-10), of d f ctx] obtain st1 w where
    R: "onError ev1 st d (Object c ps) f ctx = (st1, None)" and
    S: "sent (transmitter st1) = sent (transmitter st) @ [w]" and
    L: "lastFingerprint st1 = Some ?k"
    by blast
  from R have st1: "?st1 = st1" by simp
  from S show "\<exists>w. sent (transmitter ?st1) = sent (transmitter st) @ [w]"
    by (auto simp: st1)
  from onError_setup [of st ev1 d "Object c ps" f ctx] have SS: "current st1 = current st"
    by (simp add: st1 same_setup_def)
  have E: "isError (mem st1) (Object c ps)"
    using h(4) isError_Object_heap [of "mem st1" c ps "mem st"] by simp
  have L2: "lastFingerprint st1 = Some (take 10000 (msg @ to_string ev2 (lookup ps ''stack'')))"
    using L to_string_cong [OF h(11)] by simp
  from onError_duplicate [of st1 c ps msg ev2 d2 f2 ctx2] h(2,3,5) SS E L2
  show "sent (transmitter (fst (onError ev2 ?st1 d2 (Object c ps) f2 ctx2))) = sent (transmitter ?st1)"
    by (simp add: st1)
qed

text \<open>
  An instance: the error \<^verbatim>\<open>boom\<close> with stack \<^verbatim>\<open>at f\<close> is reported twice to a newly
  installed agent in a browser. One report is sent by the first call, none by the
  second.
\<close>

theorem dedupe_consecutive_witness:
  "fingerprint (browser 6)
     \<lparr>throttled = None, agentPlatform = ''browser'', payload_bindStack = Null,
      payload_bindTime = Null, column = Undefined, console = 1, entry_kind = ''window'',
      payload_file = Undefined, line = Undefined, message = ''boom'', nav = 2, network = 3,
      stack = String ''at f'', timestamp = ''2020-01-01T00:00:00.000Z'', visitor = 4,
      collaborators = Undefined\<rparr>
     = ''boomat f''
   \<and> dedupe_phase (browser 6)
        ((installed (defaults (\<lambda>v. ''value'')) 0 (String ''token''))\<lparr>lastFingerprint := Some ''boomat f''\<rparr>)
        \<lparr>throttled = None, agentPlatform = ''browser'', payload_bindStack = Null,
         payload_bindTime = Null, column = Undefined, console = 1, entry_kind = ''window'',
         payload_file = Undefined, line = Undefined, message = ''boom'', nav = 2, network = 3,
         stack = String ''at f'', timestamp = ''2020-01-01T00:00:00.000Z'', visitor = 4,
         collaborators = Undefined\<rparr>
       = ((installed (defaults (\<lambda>v. ''value'')) 0 (String ''token''))\<lparr>lastFingerprint := Some ''boomat f''\<rparr>,
          None)
   \<and> lastFingerprint (fst (dedupe_phase (browser 6)
        ((installed (defaults (\<lambda>v. ''value'')) 0 (String ''token''))\<lparr>lastFingerprint := Some ''other''\<rparr>)
        \<lparr>throttled = None, agentPlatform = ''browser'', payload_bindStack = Null,
         payload_bindTime = Null, column = Undefined, console = 1, entry_kind = ''window'',
         payload_file = Undefined, line = Undefined, message = ''boom'', nav = 2, network = 3,
         stack = String ''at f'', timestamp = ''2020-01-01T00:00:00.000Z'', visitor = 4,
         collaborators = Undefined\<rparr>))
       = Some ''boomat f''
   \<and> length (sent (transmitter (fst (onError (browser 5)
         (installed (defaults (\<lambda>v. ''value'')) 0 (String ''token'')) ''window''
         (Object ''Error'' [(''name'', String ''Error''), (''message'', String ''boom''),
                            (''stack'', String ''at f'')])
         None Undefined)))) = 1
   \<and> length (sent (transmitter (fst (onError (browser 6)
         (fst (onError (browser 5)
            (installed (defaults (\<lambda>v. ''value'')) 0 (String ''token'')) ''window''
            (Object ''Error'' [(''name'', String ''Error''), (''message'', String ''boom''),
                               (''stack'', String ''at f'')])
            None Undefined))
         ''window''
         (Object ''Error'' [(''name'', String ''Error''), (''message'', String ''boom''),
                            (''stack'', String ''at f'')])
         None Undefined)))) = 1"
proof -
  let ?st = "installed (defaults (\<lambda>v. ''value'')) 0 (String ''token'')"
  let ?sa = "?st\<lparr>lastFingerprint := Some ''boomat f''\<rparr>"
  let ?sb = "?st\<lparr>lastFingerprint := Some ''other''\<rparr>"
  let ?ps = "[(''name'', String ''Error''), (''message'', String ''boom''), (''stack'', String ''at f'')]"
  let ?hp = "\<lparr>throttled = None, agentPlatform = ''browser'', payload_bindStack = Null,
      payload_bindTime = Null, column = Undefined, console = 1, entry_kind = ''window'',
      payload_file = Undefined, line = Undefined, message = ''boom'', nav = 2, network = 3,
      stack = String ''at f'', timestamp = ''2020-01-01T00:00:00.000Z'', visitor = 4,
      collaborators = Undefined\<rparr>"
  have f: "fingerprint (browser 6) ?hp = ''boomat f''"
    by (simp add: fingerprint_def to_string_def)
  have ha: "dedupe (current ?sa) \<and> lastFingerprint ?sa = Some (fingerprint (browser 6) ?hp)"
    by (simp add: fingerprint_def to_string_def installed_def defaults_def)
  have hb: "dedupe (current ?sb) \<and> lastFingerprint ?sb \<noteq> Some (fingerprint (browser 6) ?hp)"
    by (simp add: fingerprint_def to_string_def installed_def defaults_def)
  have hc: "hasInstalled ?st \<and> hasEnabled ?st \<and> browserSupported (browser 5)
        \<and> dedupe (current ?st)
        \<and> (\<forall>p x. config_onError (current ?st) p x = (p, Return (Boolean True)))
        \<and> isError (mem ?st) (Object ''Error'' ?ps)
        \<and> lookup ?ps ''message'' = String ''boom''
        \<and> \<not> sublist ''Track Caught'' ''boom''
        \<and> \<not> reporting ?st
        \<and> lastFingerprint ?st \<noteq> Some (take 10000 (''boom'' @ to_string (browser 5) (lookup ?ps ''stack'')))
        \<and> log_entries (mem ?st) (eventLog ?st) = Inr []
        \<and> admits (browser 5) (transmitter ?st)
        \<and> objectToString (browser 6) = objectToString (browser 5)"
    by (simp add: installed_def defaults_def browser_def isError_def isObject_def objectTag_def
        class_of_def lookup_def sublist_Cons_right log_new_def alloc_def log_entries_def
        cell_at_def admits_def transmitter_new_def)
  have e: "sent (transmitter ?st) = []"
    by (simp add: installed_def transmitter_new_def)
  from dedupe_consecutive [where ev = "browser 6" and hp = ?hp and sa = ?sa and sb = ?sb
      and st = ?st and ?ev1.0 = "browser 5" and c = "''Error''" and ps = ?ps and msg = "''boom''"
      and xs = "[]" and ?ev2.0 = "browser 6" and d = "''window''" and f = None and ctx = Undefined
      and ?d2.0 = "''window''" and ?f2.0 = None and ?ctx2.0 = Undefined] ha hb hc
  have c2: "dedupe_phase (browser 6) ?sa ?hp = (?sa, None)"
    and c3: "lastFingerprint (fst (dedupe_phase (browser 6) ?sb ?hp)) = Some (fingerprint (browser 6) ?hp)"
    and c4: "\<exists>w. sent (transmitter (fst (onError (browser 5) ?st ''window'' (Object ''Error'' ?ps) None Undefined)))
               = sent (transmitter ?st) @ [w]"
    and c5: "sent (transmitter (fst (onError (browser 6)
                (fst (onError (browser 5) ?st ''window'' (Object ''Error'' ?ps) None Undefined))
                ''window'' (Object ''Error'' ?ps) None Undefined)))
             = sent (transmitter (fst (onError (browser 5) ?st ''window'' (Object ''Error'' ?ps) None Undefined)))"
    by blast+
  from c4 e have c4': "length (sent (transmitter (fst (onError (browser 5) ?st ''window''
        (Object ''Error'' ?ps) None Undefined)))) = 1"
    by auto
  from c3 have c3': "lastFingerprint (fst (dedupe_phase (browser 6) ?sb ?hp)) = Some ''boomat f''"
    unfolding f .
  from c5 c4' have c5': "length (sent (transmitter (fst (onError (browser 6)
                (fst (onError (browser 5) ?st ''window'' (Object ''Error'' ?ps) None Undefined))
                ''window'' (Object ''Error'' ?ps) None Undefined)))) = 1"
    by simp
  from f c2 c3' c4' c5' show ?thesis by blast
qed

subsection \<open>The size cap on console messages\<close>

lemma cap_loop_prefix:
  "\<exists>k. b + k \<le> max b (length vs)
     \<and> cap_loop ev h vs b = truncate_prefix ev h (take k (drop b vs))
     \<and> (\<forall>j<k. over_budget (truncate_prefix ev h (take j (drop b vs))) vs)
     \<and> (b + k < length vs \<longrightarrow> \<not> over_budget (cap_loop ev h vs b) vs)"
proof (induction ev h vs b rule: cap_loop.induct)
  case (1 ev h vs b)
  show ?case
  proof (cases "over_budget h vs \<and> b < length vs")
    case True
    let ?h = "truncate_message ev h (vs ! b)"
    from 1 [OF True] obtain k where
      K: "Suc b + k \<le> max (Suc b) (length vs)"
      and E: "cap_loop ev ?h vs (Suc b) = truncate_prefix ev ?h (take k (drop (Suc b) vs))"
      and O: "\<forall>j<k. over_budget (truncate_prefix ev ?h (take j (drop (Suc b) vs))) vs"
      and U: "Suc b + k < length vs \<longrightarrow> \<not> over_budget (cap_loop ev ?h vs (Suc b)) vs"
      by blast
    from True have D: "drop b vs = vs ! b # drop (Suc b) vs"
      by (simp add: Cons_nth_drop_Suc)
    have C: "cap_loop ev h vs b = cap_loop ev ?h vs (Suc b)"
      using True by (subst cap_loop.simps) simp
    have T: "truncate_prefix ev h (take (Suc j) (drop b vs))
               = truncate_prefix ev ?h (take j (drop (Suc b) vs))" for j
      by (simp add: D)
    have "b + Suc k \<le> max b (length vs)"
      using K True by simp
    moreover have "cap_loop ev h vs b = truncate_prefix ev h (take (Suc k) (drop b vs))"
      using C E T [of k] by simp
    moreover have "\<forall>j<Suc k. over_budget (truncate_prefix ev h (take j (drop b vs))) vs"
    proof (intro allI impI)
      fix j assume "j < Suc k"
      show "over_budget (truncate_prefix ev h (take j (drop b vs))) vs"
      proof (cases j)
        case 0
        with True show ?thesis by simp
      next
        case (Suc i)
        with \<open>j < Suc k\<close> O T [of i] show ?thesis by simp
      qed
    qed
    moreover have "b + Suc k < length vs \<longrightarrow> \<not> over_budget (cap_loop ev h vs b) vs"
      using U C by simp
    ultimately show ?thesis by blast
  next
    case False
    then have C: "cap_loop ev h vs b = h"
      by (subst cap_loop.simps) auto
    have "b + 0 \<le> max b (length vs)" by simp
    moreover have "cap_loop ev h vs b = truncate_prefix ev h (take 0 (drop b vs))"
      using C by simp
    moreover have "b + 0 < length vs \<longrightarrow> \<not> over_budget (cap_loop ev h vs b) vs"
      using False C by auto
    ultimately show ?thesis by blast
  qed
qed

lemma dec_length: "0 < k \<Longrightarrow> n < 10 ^ k \<Longrightarrow> length (dec n) \<le> k"
proof (induction k arbitrary: n)
  case 0
  then show ?case by simp
next
  case (Suc k)
  show ?case
  proof (cases "n < 10")
    case True
    then show ?thesis by (subst dec.simps) simp
  next
    case False
    with Suc.prems have k: "0 < k" by (cases k) auto
    from Suc.prems have "n div 10 < 10 ^ k"
      by (simp add: less_mult_imp_div_less mult.commute)
    from Suc.IH [OF k this] False show ?thesis
      by (subst dec.simps) simp
  qed
qed

lemma util_truncate_length:
  assumes "length (to_string ev m) < 10 ^ 16"
  shows "length (util_truncate ev m 1000) \<le> 1021"
proof (cases "length (to_string ev m) \<le> 1000")
  case True
  then show ?thesis by (simp add: util_truncate_def Let_def)
next
  case False
  from assms have "length (to_string ev m) - 1000 < 10 ^ 16" by simp
  from dec_length [OF _ this] have "length (dec (length (to_string ev m) - 1000)) \<le> 16" by simp
  with False show ?thesis by (simp add: util_truncate_def Let_def)
qed

lemma lookup_update: "lookup (AList.update k v ps) k1 = (if k1 = k then v else lookup ps k1)"
  by (simp add: lookup_def update_conv')

lemma get_prop_set_prop_other:
  "b \<noteq> a \<Longrightarrow> get_prop (set_prop h a k v) (Ref b) k1 = get_prop h (Ref b) k1"
  by (simp add: get_prop_def cell_at_store_other set_prop_def split: option.splits cell.splits)

lemma get_prop_set_prop_same:
  "get_prop (set_prop h a k v) (Ref a) k
     = (case cell_at h a of Some (Obj ps) \<Rightarrow> v | Some (Fun f) \<Rightarrow> v | _ \<Rightarrow> Undefined)"
proof (cases "cell_at h a")
  case None
  then show ?thesis by (simp add: get_prop_def set_prop_def)
next
  case (Some c)
  then have L: "a < length h" by (simp add: cell_at_def split: if_splits)
  show ?thesis
  proof (cases c)
    case (Obj ps)
    with Some L show ?thesis
      by (simp add: get_prop_def set_prop_def cell_at_store_same lookup_update)
  next
    case (Fun f)
    with Some L show ?thesis
      by (simp add: get_prop_def set_prop_def cell_at_store_same lookup_update)
  qed (use Some in \<open>simp_all add: get_prop_def set_prop_def\<close>)
qed

lemma message_length_String: "message_length (String s) = Some (length s)"
  by (simp add: message_length_def or_else_def)

lemma message_length_Undefined: "message_length Undefined = Some 0"
  by (simp add: message_length_def or_else_def)

lemma truncate_message_small:
  assumes "sane ev h a"
  shows "small (truncate_message ev h a) a \<and> sane ev (truncate_message ev h a) a"
proof -
  let ?s = "util_truncate ev (get_prop h (Ref a) ''message'') 1000"
  from assms have L: "length ?s \<le> 1021"
    by (simp add: sane_def util_truncate_length)
  have "get_prop (truncate_message ev h a) (Ref a) ''message'' = String ?s
      \<or> get_prop (truncate_message ev h a) (Ref a) ''message'' = Undefined"
    by (simp add: truncate_message_def get_prop_set_prop_same split: option.splits cell.splits)
  then show ?thesis
  proof
    assume "get_prop (truncate_message ev h a) (Ref a) ''message'' = String ?s"
    with L show ?thesis
      by (simp add: small_def sane_def message_length_String to_string_def)
  next
    assume "get_prop (truncate_message ev h a) (Ref a) ''message'' = Undefined"
    then show ?thesis
      by (simp add: small_def sane_def message_length_Undefined to_string_def)
  qed
qed

lemma truncate_message_other:
  "b \<noteq> a \<Longrightarrow> small (truncate_message ev h a) b = small h b"
  "b \<noteq> a \<Longrightarrow> sane ev (truncate_message ev h a) b = sane ev h b"
  by (simp_all add: small_def sane_def truncate_message_def get_prop_set_prop_other)

lemma truncate_message_keeps:
  assumes "sane ev h a" "sane ev h b"
  shows "sane ev (truncate_message ev h a) b" and "small h b \<Longrightarrow> small (truncate_message ev h a) b"
  using assms truncate_message_small [of ev h a] truncate_message_other [of b a ev h]
  by (cases "b = a"; simp)+

lemma truncate_prefix_small:
  assumes "\<forall>a\<in>set vs. sane ev h a" and "set as \<subseteq> set vs"
  shows "(\<forall>a\<in>set vs. sane ev (truncate_prefix ev h as) a)
       \<and> (\<forall>a\<in>set as. small (truncate_prefix ev h as) a)
       \<and> (\<forall>a\<in>set vs. small h a \<longrightarrow> small (truncate_prefix ev h as) a)"
  using assms
proof (induction as arbitrary: h)
  case Nil
  then show ?case by simp
next
  case (Cons x as)
  let ?h = "truncate_message ev h x"
  from Cons.prems have x: "x \<in> set vs" "sane ev h x" by auto
  have S: "\<forall>a\<in>set vs. sane ev ?h a"
    using Cons.prems(1) x truncate_message_keeps(1) by blast
  from Cons.prems(2) have sub: "set as \<subseteq> set vs" by simp
  note IH = Cons.IH [OF S sub]
  have X: "small ?h x" using truncate_message_small [OF x(2)] by simp
  have K: "\<forall>a\<in>set vs. small h a \<longrightarrow> small ?h a"
    using Cons.prems(1) x truncate_message_keeps(2) by blast
  from IH X x K show ?case by auto
qed

lemma console_total_bound:
  "\<forall>a\<in>set vs. small h a \<Longrightarrow>
   \<exists>t. console_total h vs (Some m) = Some t \<and> t \<le> m + 1021 * length vs"
proof (induction vs arbitrary: m)
  case Nil
  then show ?case by simp
next
  case (Cons a vs)
  from Cons.prems obtain n where n: "n \<le> 1021" "message_length (get_prop h (Ref a) ''message'') = Some n"
    by (auto simp: small_def)
  from Cons.prems have "\<forall>a\<in>set vs. small h a" by simp
  from Cons.IH [OF this, of "m + n"] obtain t where
    "console_total h vs (Some (m + n)) = Some t" "t \<le> m + n + 1021 * length vs" by blast
  with n show ?case by simp
qed

lemma cap_loop_under_budget:
  assumes "length vs \<le> 78" and "\<forall>a\<in>set vs. sane ev h a"
  shows "\<not> over_budget (cap_loop ev h vs 0) vs"
proof -
  from cap_loop_prefix [of 0 vs ev h] obtain k where
    K: "k \<le> length vs" and E: "cap_loop ev h vs 0 = truncate_prefix ev h (take k vs)"
    and U: "k < length vs \<longrightarrow> \<not> over_budget (cap_loop ev h vs 0) vs"
    by auto
  show ?thesis
  proof (cases "k < length vs")
    case True
    with U show ?thesis by simp
  next
    case False
    with K have "take k vs = vs" by simp
    with E have E': "cap_loop ev h vs 0 = truncate_prefix ev h vs" by simp
    from truncate_prefix_small [OF assms(2), of vs] have "\<forall>a\<in>set vs. small (truncate_prefix ev h vs) a"
      by simp
    from console_total_bound [OF this, of 0] obtain t where
      t: "console_total (truncate_prefix ev h vs) vs (Some 0) = Some t" "t \<le> 1021 * length vs"
      by auto
    from assms(1) have "1021 * length vs \<le> 1021 * 78" by simp
    with t have "t < 80000" by simp
    with t show ?thesis by (simp add: E' over_budget_def)
  qed
qed

lemma console_capture_full:
  assumes "log_entries (mem st) (eventLog st) = Inr xs" and "0 < maxLength (eventLog st)"
  shows "\<exists>st1 ys. console_capture ev st k severity arg = Inr st1
           \<and> log_entries (mem st1) (eventLog st1) = Inr ys \<and> ys \<noteq> []
           \<and> key (last ys) = k \<and> category (last ys) = ''c''
           \<and> get_prop (mem st1) (Ref (val (last ys))) ''message''
                = String (track_serialize st arg False)"
proof -
  let ?ps = "[(''timestamp'', String (isoNow ev)), (''severity'', String severity),
              (''message'', String (track_serialize st arg False))]"
  let ?h = "mem st @ [Obj ?ps]"
  let ?l = "eventLog st"
  let ?e = "\<lparr>key = k, category = ''c'', val = length (mem st)\<rparr>"
  let ?ys = "drop (length (xs @ [?e]) - maxLength ?l) (xs @ [?e])"
  from assms(1) have A: "appender ?l < length (mem st)"
    by (simp add: log_entries_Inr_iff)
  from log_entries_append [OF assms(1), of "[Obj ?ps]"] have E: "log_entries ?h ?l = Inr xs" .
  from log_add_entries [OF E, of k "''c''" "length (mem st)"] obtain h1 l1 where
    R: "log_add ?h ?l k ''c'' (length (mem st)) = Inr (h1, l1, k)"
    and F: "\<forall>p < length ?h. p \<noteq> appender ?l \<longrightarrow> cell_at h1 p = cell_at ?h p"
    and E1: "log_entries h1 l1 = Inr ?ys"
    by blast
  have C: "console_capture ev st k severity arg = Inr (st\<lparr>mem := h1, eventLog := l1\<rparr>)"
    using R by (simp add: console_capture_def alloc_def)
  from assms(2) have D: "length (xs @ [?e]) - maxLength ?l < length (xs @ [?e])" by simp
  then have N: "?ys \<noteq> []" by (simp del: length_append drop_append)
  from last_drop [OF D] have L: "last ?ys = ?e" by (simp del: length_append drop_append)
  from F A have "cell_at h1 (length (mem st)) = Some (Obj ?ps)"
    by (simp add: cell_at_def)
  then have G: "get_prop h1 (Ref (length (mem st))) ''message'' = String (track_serialize st arg False)"
    by (simp add: get_prop_def lookup_def)
  from C E1 N L G show ?thesis
    by (intro exI [of _ "st\<lparr>mem := h1, eventLog := l1\<rparr>"] exI [of _ ?ys]) simp
qed

lemma array_view_store_entries:
  assumes "cell_at h p = Some (Entries xs)"
  shows "array_view (store h p (Entries ys)) c = array_view h c"
proof -
  from assms have L: "p < length h" by (simp add: cell_at_def split: if_splits)
  have X: "(case cell_at (store h p (Entries ys)) v of Some (Obj ps) \<Rightarrow> ps | _ \<Rightarrow> [])
         = (case cell_at h v of Some (Obj ps) \<Rightarrow> ps | _ \<Rightarrow> [])" for v
    using assms L by (cases "v = p") (simp_all add: cell_at_store_same cell_at_store_other)
  show ?thesis
  proof (cases "c = p")
    case True
    with assms L show ?thesis by (simp add: array_view_def cell_at_store_same)
  next
    case False
    then have Y: "cell_at (store h p (Entries ys)) c = cell_at h c"
      by (simp add: cell_at_store_other)
    show ?thesis unfolding array_view_def Y X ..
  qed
qed

lemma sendError_admits_console:
  assumes "admits ev t"
  shows "\<exists>t1 a1. sendError str ev t (a :: payload) b = (t1, a1, Done)
            \<and> sent t1 = sent t @ [(str a1, b)] \<and> console a1 = console a"
proof -
  obtain r a1 t1 where T: "throttle (now ev) t a = (r, a1, t1)" by (cases "throttle (now ev) t a")
  from assms have "\<not> r" using T by (auto simp: admits_def throttle_def Let_def split: if_splits)
  moreover from throttle_fields(2) [of "now ev" t a] T have "sent t1 = sent t" by simp
  moreover from T have "console a1 = console a"
    by (auto simp: throttle_def Let_def split: if_splits)
  ultimately show ?thesis using assms T
    by (auto simp: sendError_def admits_def getCORSRequest_def testCrossdomainXhr_def split: if_splits)
qed

lemma send_phase_console:
  assumes "log_entries (mem st) (eventLog st) = Inr xs" and "admits ev (transmitter st)"
  shows "\<exists>w. sent (transmitter (fst (send_phase ev st hp))) = sent (transmitter st) @ [(w, customer_token st)]
           \<and> wire_console w = array_view (cap_console ev (mem st) (console hp)) (console hp)"
proof -
  let ?h1 = "cap_console ev (mem st) (console hp)"
  from cap_console_entries [OF assms(1)] have E: "log_entries ?h1 (eventLog st) = Inr xs" .
  then have C: "log_clear ?h1 (eventLog st) = Inr (store ?h1 (appender (eventLog st)) (Entries []))"
    by (simp add: log_clear_def)
  let ?h2 = "store ?h1 (appender (eventLog st)) (Entries [])"
  from sendError_admits_console [OF assms(2), of "stringify ?h2" hp "customer_token st"]
  obtain t1 a1 where S: "sendError (stringify ?h2) ev (transmitter st) hp (customer_token st) = (t1, a1, Done)"
    and T: "sent t1 = sent (transmitter st) @ [(stringify ?h2 a1, customer_token st)]"
    and K: "console a1 = console hp"
    by blast
  from E have "cell_at ?h1 (appender (eventLog st)) = Some (Entries xs)"
    by (simp add: log_entries_cell)
  from array_view_store_entries [OF this, of "[]" "console hp"]
  have "wire_console (stringify ?h2 a1) = array_view ?h1 (console hp)"
    by (simp add: stringify_def K)
  then show ?thesis
    by (simp add: send_phase_def Let_def C S T)
qed

text \<open>
  Claim C8. When a report is assembled and sent, the console messages attached to it are
  capped. If their total length is below 80000, nothing is changed. Otherwise the
  messages are truncated one entry after the other, starting from the oldest: the loop
  truncates the first \<open>k\<close> entries, where the total was still at or over the cap before
  each of them, and it stops before the end of the array only when the total has come
  under the cap. For an array of at most 78 entries (the log holds at most 30, and one
  more may be pushed for an exception of the hook) whose messages are JavaScript
  strings, the total is under the cap in the end. The cap belongs to the assembly: the
  console watcher stores the serialized message in full, and the report that is sent
  carries the console entries as the cap has left them.
\<close>

theorem console_cap:
  "(cell_at h0 c0 = Some (Values vs0) \<and> \<not> over_budget h0 vs0 \<longrightarrow> cap_console ev h0 c0 = h0)
   \<and> (cell_at h c = Some (Values vs) \<longrightarrow>
        (\<exists>k\<le>length vs.
            cap_console ev h c = truncate_prefix ev h (take k vs)
            \<and> (\<forall>j<k. over_budget (truncate_prefix ev h (take j vs)) vs)
            \<and> (k < length vs \<longrightarrow> \<not> over_budget (cap_console ev h c) vs)))
   \<and> (cell_at h c = Some (Values vs) \<and> length vs \<le> 78
        \<and> (\<forall>a\<in>set vs. length (to_string ev (get_prop h (Ref a) ''message'')) < 2 ^ 53) \<longrightarrow>
        \<not> over_budget (cap_console ev h c) vs)
   \<and> (log_entries (mem st) (eventLog st) = Inr xs \<and> 0 < maxLength (eventLog st) \<longrightarrow>
        (\<exists>st1 ys. console_capture ev st k severity arg = Inr st1
           \<and> log_entries (mem st1) (eventLog st1) = Inr ys \<and> ys \<noteq> []
           \<and> key (last ys) = k \<and> category (last ys) = ''c''
           \<and> get_prop (mem st1) (Ref (val (last ys))) ''message''
                = String (track_serialize st arg False)))
   \<and> (log_entries (mem st) (eventLog st) = Inr xs \<and> admits ev (transmitter st) \<longrightarrow>
        (\<exists>w. sent (transmitter (fst (send_phase ev st hp))) = sent (transmitter st) @ [(w, customer_token st)]
           \<and> wire_console w = array_view (cap_console ev (mem st) (console hp)) (console hp)))"
proof (intro conjI impI)
  assume "cell_at h0 c0 = Some (Values vs0) \<and> \<not> over_budget h0 vs0"
  then show "cap_console ev h0 c0 = h0"
    by (simp add: cap_console_def cap_loop.simps [of ev h0 vs0 0])
next
  assume A: "cell_at h c = Some (Values vs)"
  from cap_loop_prefix [of 0 vs ev h] A
  show "\<exists>k\<le>length vs.
            cap_console ev h c = truncate_prefix ev h (take k vs)
            \<and> (\<forall>j<k. over_budget (truncate_prefix ev h (take j vs)) vs)
            \<and> (k < length vs \<longrightarrow> \<not> over_budget (cap_console ev h c) vs)"
    by (simp add: cap_console_def)
next
  assume A: "cell_at h c = Some (Values vs) \<and> length vs \<le> 78
        \<and> (\<forall>a\<in>set vs. length (to_string ev (get_prop h (Ref a) ''message'')) < 2 ^ 53)"
  have "(2::nat) ^ 53 < 10 ^ 16" by simp
  with A have "\<forall>a\<in>set vs. sane ev h a"
    by (auto simp: sane_def intro: less_trans)
  from cap_loop_under_budget [OF _ this] A show "\<not> over_budget (cap_console ev h c) vs"
    by (simp add: cap_console_def)
next
  assume "log_entries (mem st) (eventLog st) = Inr xs \<and> 0 < maxLength (eventLog st)"
  then show "\<exists>st1 ys. console_capture ev st k severity arg = Inr st1
           \<and> log_entries (mem st1) (eventLog st1) = Inr ys \<and> ys \<noteq> []
           \<and> key (last ys) = k \<and> category (last ys) = ''c''
           \<and> get_prop (mem st1) (Ref (val (last ys))) ''message''
                = String (track_serialize st arg False)"
    using console_capture_full [of st xs ev k severity arg] by blast
next
  assume "log_entries (mem st) (eventLog st) = Inr xs \<and> admits ev (transmitter st)"
  then show "\<exists>w. sent (transmitter (fst (send_phase ev st hp))) = sent (transmitter st) @ [(w, customer_token st)]
           \<and> wire_console w = array_view (cap_console ev (mem st) (console hp)) (console hp)"
    using send_phase_console [of st xs ev hp] by blast
qed

text \<open>
  An instance: a console message of 80000 characters followed by a short one. The long
  message is cut to 1000 characters and the marker \<^verbatim>\<open>...{79000}\<close>, the short one is
  left alone.
\<close>

theorem console_cap_witness:
  "cap_console (browser 5) [Entries [], Obj [(''message'', String ''hello'')], Values [1]] 2
     = [Entries [], Obj [(''message'', String ''hello'')], Values [1]]
   \<and> over_budget
        [Entries [], Obj [(''message'', String (replicate 80000 (CHR ''x'')))],
         Obj [(''message'', String ''ok'')], Values [1, 2]] [1, 2]
   \<and> cap_console (browser 5)
        [Entries [], Obj [(''message'', String (replicate 80000 (CHR ''x'')))],
         Obj [(''message'', String ''ok'')], Values [1, 2]] 3
     = [Entries [], Obj [(''message'', String (replicate 1000 (CHR ''x'') @ ''...{79000}''))],
        Obj [(''message'', String ''ok'')], Values [1, 2]]
   \<and> \<not> over_budget
        (cap_console (browser 5)
          [Entries [], Obj [(''message'', String (replicate 80000 (CHR ''x'')))],
           Obj [(''message'', String ''ok'')], Values [1, 2]] 3) [1, 2]
   \<and> (\<exists>st1 ys.
         console_capture (browser 5) (installed (defaults (\<lambda>v. ''value'')) 0 (String ''token''))
           ''k1'' ''log'' (String ''hi'') = Inr st1
         \<and> log_entries (mem st1) (eventLog st1) = Inr ys \<and> ys \<noteq> []
         \<and> get_prop (mem st1) (Ref (val (last ys))) ''message'' = String ''value'')
   \<and> (\<exists>w. sent (transmitter (fst (send_phase (browser 5)
                (installed (defaults (\<lambda>v. ''value'')) 0 (String ''token''))
                \<lparr>throttled = None, agentPlatform = ''browser'', payload_bindStack = Null,
                 payload_bindTime = Null, column = Undefined, console = 1, entry_kind = ''window'',
                 payload_file = Undefined, line = Undefined, message = ''boom'', nav = 2, network = 3,
                 stack = String ''at f'', timestamp = ''2020-01-01T00:00:00.000Z'', visitor = 4,
                 collaborators = Undefined\<rparr>)))
            = [(w, String ''token'')])"
proof -
  let ?ev = "browser 5"
  let ?ha = "[Entries [], Obj [(''message'', String ''hello'')], Values [1]]"
  let ?h = "[Entries [], Obj [(''message'', String (replicate 80000 (CHR ''x'')))],
             Obj [(''message'', String ''ok'')], Values [1, 2]]"
  let ?st = "installed (defaults (\<lambda>v. ''value'')) 0 (String ''token'')"
  let ?hp = "\<lparr>throttled = None, agentPlatform = ''browser'', payload_bindStack = Null,
                 payload_bindTime = Null, column = Undefined, console = 1, entry_kind = ''window'',
                 payload_file = Undefined, line = Undefined, message = ''boom'', nav = 2, network = 3,
                 stack = String ''at f'', timestamp = ''2020-01-01T00:00:00.000Z'', visitor = 4,
                 collaborators = Undefined\<rparr>"
  have a: "cell_at ?ha 2 = Some (Values [1]) \<and> \<not> over_budget ?ha [1]"
    by (simp add: cell_at_def over_budget_def get_prop_def lookup_def message_length_def or_else_def)
  have b: "cell_at ?h 3 = Some (Values [1, 2])"
    by (simp add: cell_at_def)
  have o: "over_budget ?h [1, 2]"
    by (simp add: cell_at_def over_budget_def get_prop_def lookup_def message_length_def or_else_def)
  have c: "cell_at ?h 3 = Some (Values [1, 2]) \<and> length [1, 2 :: nat] \<le> 78
        \<and> (\<forall>a\<in>set [1, 2]. length (to_string ?ev (get_prop ?h (Ref a) ''message'')) < 2 ^ 53)"
    by (simp add: cell_at_def get_prop_def lookup_def to_string_def)
  have d: "log_entries (mem ?st) (eventLog ?st) = Inr [] \<and> 0 < maxLength (eventLog ?st)"
    by (simp add: installed_def log_new_def alloc_def log_entries_def cell_at_def)
  have e: "log_entries (mem ?st) (eventLog ?st) = Inr [] \<and> admits ?ev (transmitter ?st)"
    by (simp add: installed_def log_new_def alloc_def log_entries_def cell_at_def admits_def
        browser_def transmitter_new_def)
  have v: "cap_console ?ev ?h 3
     = [Entries [], Obj [(''message'', String (replicate 1000 (CHR ''x'') @ ''...{79000}''))],
        Obj [(''message'', String ''ok'')], Values [1, 2]]"
    by (simp add: cap_console_def cell_at_def cap_loop.simps over_budget_def get_prop_def
        lookup_def message_length_def or_else_def truncate_message_def set_prop_def store_def
        util_truncate_def to_string_def dec.simps digit_def Let_def)
  from console_cap [where ?h0.0 = ?ha and ?c0.0 = 2 and ?vs0.0 = "[1]" and ev = ?ev and h = ?h
      and c = 3 and vs = "[1, 2]" and st = ?st and xs = "[]" and k = "''k1''" and severity = "''log''"
      and arg = "String ''hi''" and hp = ?hp] a b c d e
  have r1: "cap_console ?ev ?ha 2 = ?ha"
    and r3: "\<not> over_budget (cap_console ?ev ?h 3) [1, 2]"
    and r4: "\<exists>st1 ys. console_capture ?ev ?st ''k1'' ''log'' (String ''hi'') = Inr st1
           \<and> log_entries (mem st1) (eventLog st1) = Inr ys \<and> ys \<noteq> []
           \<and> key (last ys) = ''k1'' \<and> category (last ys) = ''c''
           \<and> get_prop (mem st1) (Ref (val (last ys))) ''message''
                = String (track_serialize ?st (String ''hi'') False)"
    and r5: "\<exists>w. sent (transmitter (fst (send_phase ?ev ?st ?hp))) = sent (transmitter ?st) @ [(w, customer_token ?st)]
           \<and> wire_console w = array_view (cap_console ?ev (mem ?st) (console ?hp)) (console ?hp)"
    by blast+
  have s: "track_serialize ?st (String ''hi'') False = ''value''"
    by (simp add: track_serialize_def installed_def defaults_def)
  have t: "sent (transmitter ?st) = [] \<and> customer_token ?st = String ''token''"
    by (simp add: installed_def transmitter_new_def)
  from r4 have r4': "\<exists>st1 ys. console_capture ?ev ?st ''k1'' ''log'' (String ''hi'') = Inr st1
           \<and> log_entries (mem st1) (eventLog st1) = Inr ys \<and> ys \<noteq> []
           \<and> get_prop (mem st1) (Ref (val (last ys))) ''message'' = String ''value''"
    unfolding s by blast
  from r5 t have r5': "\<exists>w. sent (transmitter (fst (send_phase ?ev ?st ?hp))) = [(w, String ''token'')]"
    by auto
  from r1 o v r3 r4' r5' show ?thesis by blast
qed

section \<open>Facts about the calls that the network watcher makes\<close>

subsection \<open>An activation that ends at the watcher\<close>













subsection \<open>What a call sends and raises\<close>


















lemma onFault_returns:
  "(\<exists>s. get_prop (mem st) m ''stack'' = String s) \<or> \<not> truthy (get_prop (mem st) m ''stack'') \<Longrightarrow>
   truthy m \<Longrightarrow> snd (onFault ev st m) = None"
  by (auto simp: onFault_def Let_def or_else_def split: jsval.splits)







section \<open>The claim about the channel\<close>













section \<open>Facts about the function wrapper\<close>





















section \<open>The claims about the function wrapper\<close>







end
